theory Spec2Isabelle
  imports Complex_Main "HOL-Library.Multiset" "HOL-Library.Log_Nat"
begin

section \<open>Data model\<close>

text \<open>
  The application is a single-file React program (\<^verbatim>\<open>src/unnamed/part_002\<close>, the
  rolling-window and cancellation-aware version). JavaScript numbers that carry a tempo
  (BPM) are modelled as rationals, every double being one: \<^verbatim>\<open>parseFloat\<close> rounds a decimal
  to the nearest double, and the only arithmetic the code performs on the result is
  halving, doubling and comparison. A track's \<^verbatim>\<open>duration_ms\<close> is the catalog's
  millisecond count, a natural number, and may be absent. A JavaScript value that may be
  \<^verbatim>\<open>undefined\<close> or \<^verbatim>\<open>null\<close> is an \<open>option\<close>.
\<close>

record track =
  track_id :: string
  duration_ms :: "nat option"
  added_at :: int
  sourcePlaylist :: "string option"

text \<open>
  The object \<^verbatim>\<open>{ ...track, tempo, originalTempo, tempoType }\<close> built by
  \<^verbatim>\<open>filterTracksByTempo\<close> and \<^verbatim>\<open>processTrackForSelection\<close>.
\<close>

record track_with_tempo =
  tr :: track
  tempo :: "rat option"
  originalTempo :: "rat option"
  tempoType :: string

section \<open>Tempo matching: filterTracksByTempo\<close>

text \<open>
  The callback of \<^verbatim>\<open>tracks.filter\<close>. \<^verbatim>\<open>if (!tempo) return false\<close> rejects a
  missing entry and the number 0.
\<close>

definition filterTracksByTempo_keep :: "(string \<Rightarrow> rat option) \<Rightarrow> rat \<times> rat \<Rightarrow> track \<Rightarrow> bool" where
  "filterTracksByTempo_keep tempos tempoRange t =
     (case tempoRange of (minBpm, maxBpm) \<Rightarrow>
        (case tempos (track_id t) of
           None \<Rightarrow> False
         | Some tempo' \<Rightarrow>
             if tempo' = 0 then False
             else
               (let inRange = (tempo' \<ge> minBpm \<and> tempo' \<le> maxBpm);
                    halfTime = tempo' / 2;
                    halfTimeInRange = (halfTime \<ge> minBpm \<and> halfTime \<le> maxBpm);
                    doubleTime = tempo' * 2;
                    doubleTimeInRange = (doubleTime \<ge> minBpm \<and> doubleTime \<le> maxBpm)
                in inRange \<or> halfTimeInRange \<or> doubleTimeInRange)))"

text \<open>
  The callback of \<^verbatim>\<open>.map\<close>. On a missing entry every comparison with
  \<^verbatim>\<open>undefined\<close> is false, so the defaults (\<^verbatim>\<open>displayTempo = originalTempo\<close>,
  \<^verbatim>\<open>"original"\<close>) stay.
\<close>

definition filterTracksByTempo_map :: "(string \<Rightarrow> rat option) \<Rightarrow> rat \<times> rat \<Rightarrow> track \<Rightarrow> track_with_tempo" where
  "filterTracksByTempo_map tempos tempoRange t =
     (case tempoRange of (minBpm, maxBpm) \<Rightarrow>
        (case tempos (track_id t) of
           None \<Rightarrow> \<lparr>tr = t, tempo = None, originalTempo = None, tempoType = ''original''\<rparr>
         | Some originalTempo' \<Rightarrow>
             (let halfTime = originalTempo' / 2;
                  doubleTime = originalTempo' * 2
              in if originalTempo' \<ge> minBpm \<and> originalTempo' \<le> maxBpm then
                   \<lparr>tr = t, tempo = Some originalTempo', originalTempo = Some originalTempo',
                    tempoType = ''original''\<rparr>
                 else if halfTime \<ge> minBpm \<and> halfTime \<le> maxBpm then
                   \<lparr>tr = t, tempo = Some halfTime, originalTempo = Some originalTempo',
                    tempoType = ''half-time''\<rparr>
                 else if doubleTime \<ge> minBpm \<and> doubleTime \<le> maxBpm then
                   \<lparr>tr = t, tempo = Some doubleTime, originalTempo = Some originalTempo',
                    tempoType = ''double-time''\<rparr>
                 else
                   \<lparr>tr = t, tempo = Some originalTempo', originalTempo = Some originalTempo',
                    tempoType = ''original''\<rparr>)))"

definition filterTracksByTempo ::
  "track list \<Rightarrow> (string \<Rightarrow> rat option) \<Rightarrow> rat \<times> rat \<Rightarrow> track_with_tempo list" where
  "filterTracksByTempo tracks tempos tempoRange =
     map (filterTracksByTempo_map tempos tempoRange)
       (filter (filterTracksByTempo_keep tempos tempoRange) tracks)"

section \<open>Scan session: processTrackForSelection and the saved-tracks phase\<close>

text \<open>
  The closure variables of \<^verbatim>\<open>findMatchingSongs\<close> that the accept paths read and
  write. \<^verbatim>\<open>targetDurationMs\<close>, \<^verbatim>\<open>minTempo\<close> and \<^verbatim>\<open>maxTempo\<close> are constant
  during a scan.
\<close>

record scan_config =
  targetDurationMs :: nat
  minTempo :: rat
  maxTempo :: rat

record scan_session =
  currentDurationMs :: nat
  selectedTracks :: "track_with_tempo list"

text \<open>\<^verbatim>\<open>track.duration_ms || 0\<close>\<close>

definition duration_or_0 :: "track \<Rightarrow> nat" where
  "duration_or_0 t = (case duration_ms t of None \<Rightarrow> 0 | Some d \<Rightarrow> d)"

text \<open>
  \<^verbatim>\<open>processTrackForSelection(track, bpm)\<close>: the returned boolean and the updated
  closure state. The function has no suspension point, so it runs atomically.
\<close>

definition processTrackForSelection ::
  "scan_config \<Rightarrow> track \<Rightarrow> rat option \<Rightarrow> scan_session \<Rightarrow> bool \<times> scan_session" where
  "processTrackForSelection cfg t bpm s =
     (if currentDurationMs s \<ge> targetDurationMs cfg then (False, s)
      else
        (case bpm of
           None \<Rightarrow> (False, s)
         | Some b \<Rightarrow>
             (let originalInRange = (b \<ge> minTempo cfg \<and> b \<le> maxTempo cfg);
                  halfTimeInRange = (b / 2 \<ge> minTempo cfg \<and> b / 2 \<le> maxTempo cfg);
                  doubleTimeInRange = (b * 2 \<ge> minTempo cfg \<and> b * 2 \<le> maxTempo cfg)
              in if originalInRange \<or> halfTimeInRange \<or> doubleTimeInRange then
                   (let trackWithTempo =
                          (if originalInRange then
                             \<lparr>tr = t, tempo = Some b, originalTempo = Some b,
                              tempoType = ''original''\<rparr>
                           else if halfTimeInRange then
                             \<lparr>tr = t, tempo = Some (b / 2), originalTempo = Some b,
                              tempoType = ''half-time''\<rparr>
                           else if doubleTimeInRange then
                             \<lparr>tr = t, tempo = Some (b * 2), originalTempo = Some b,
                              tempoType = ''double-time''\<rparr>
                           else
                             \<lparr>tr = t, tempo = Some b, originalTempo = Some b,
                              tempoType = ''original''\<rparr>);
                        s' = s\<lparr>selectedTracks := selectedTracks s @ [trackWithTempo],
                               currentDurationMs := currentDurationMs s + duration_or_0 t\<rparr>
                    in (currentDurationMs s' \<ge> targetDurationMs cfg, s'))
                 else (False, s))))"

text \<open>
  The saved-tracks fallback of \<^verbatim>\<open>findMatchingSongs\<close>: the
  \<^verbatim>\<open>for (const track of uniqueSavedTracks)\<close> loop with its two \<^verbatim>\<open>break\<close>s.
\<close>

fun savedTracksLoop ::
  "scan_config \<Rightarrow> (string \<Rightarrow> rat option) \<Rightarrow> track list \<Rightarrow> scan_session \<Rightarrow> scan_session" where
  "savedTracksLoop cfg savedTempos [] s = s"
| "savedTracksLoop cfg savedTempos (t # rest) s =
     (if currentDurationMs s \<ge> targetDurationMs cfg then s
      else
        (case savedTempos (track_id t) of
           None \<Rightarrow> savedTracksLoop cfg savedTempos rest s
         | Some bpm \<Rightarrow>
             (let originalInRange = (bpm \<ge> minTempo cfg \<and> bpm \<le> maxTempo cfg);
                  halfTimeInRange = (bpm / 2 \<ge> minTempo cfg \<and> bpm / 2 \<le> maxTempo cfg);
                  doubleTimeInRange = (bpm * 2 \<ge> minTempo cfg \<and> bpm * 2 \<le> maxTempo cfg)
              in if originalInRange \<or> halfTimeInRange \<or> doubleTimeInRange then
                   (let t' = t\<lparr>sourcePlaylist := Some ''Saved Tracks''\<rparr>;
                        trackWithTempo =
                          (if originalInRange then
                             \<lparr>tr = t', tempo = Some bpm, originalTempo = Some bpm,
                              tempoType = ''original''\<rparr>
                           else if halfTimeInRange then
                             \<lparr>tr = t', tempo = Some (bpm / 2), originalTempo = Some bpm,
                              tempoType = ''half-time''\<rparr>
                           else if doubleTimeInRange then
                             \<lparr>tr = t', tempo = Some (bpm * 2), originalTempo = Some bpm,
                              tempoType = ''double-time''\<rparr>
                           else
                             \<lparr>tr = t', tempo = Some bpm, originalTempo = Some bpm,
                              tempoType = ''original''\<rparr>);
                        s' = s\<lparr>selectedTracks := selectedTracks s @ [trackWithTempo],
                               currentDurationMs := currentDurationMs s + duration_or_0 t\<rparr>
                    in if currentDurationMs s' \<ge> targetDurationMs cfg then s'
                       else savedTracksLoop cfg savedTempos rest s')
                 else savedTracksLoop cfg savedTempos rest s)))"

text \<open>
  What happens to the closure state during one scan, in the order the events occur:
  an oracle estimate settles in the playlist phase and \<^verbatim>\<open>processTrackForSelection\<close> runs
  (estimates that are still in flight may settle at any later time);
  \<^verbatim>\<open>selectedTracks.sort\<close> orders the selection by most recent \<^verbatim>\<open>added_at\<close> first
  (JavaScript's sort is stable and in place); the saved-tracks loop runs.
\<close>

datatype scan_event =
    PrimaryEstimate track "rat option"
  | SortByRecency
  | SavedPhase "track list" "string \<Rightarrow> rat option"

fun scan_step :: "scan_config \<Rightarrow> scan_session \<Rightarrow> scan_event \<Rightarrow> scan_session" where
  "scan_step cfg s (PrimaryEstimate t bpm) = snd (processTrackForSelection cfg t bpm s)"
| "scan_step cfg s SortByRecency =
     s\<lparr>selectedTracks := sort_key (\<lambda>r. - added_at (tr r)) (selectedTracks s)\<rparr>"
| "scan_step cfg s (SavedPhase uniqueSavedTracks savedTempos) =
     savedTracksLoop cfg savedTempos uniqueSavedTracks s"

definition scan_start :: scan_session where
  "scan_start = \<lparr>currentDurationMs = 0, selectedTracks = []\<rparr>"

definition run_scan :: "scan_config \<Rightarrow> scan_event list \<Rightarrow> scan_session" where
  "run_scan cfg evs = foldl (scan_step cfg) scan_start evs"

text \<open>The sum the invariant compares with: \<^verbatim>\<open>duration_ms || 0\<close> over the selection.\<close>

definition selection_duration :: "scan_session \<Rightarrow> nat" where
  "selection_duration s = sum_list (map (\<lambda>r. duration_or_0 (tr r)) (selectedTracks s))"

text \<open>How many of the three candidates \<open>t\<close>, \<open>t/2\<close>, \<open>t*2\<close> lie in \<open>[mn, mx]\<close>.\<close>

definition candidates_in_range :: "rat \<Rightarrow> rat \<Rightarrow> rat \<Rightarrow> nat" where
  "candidates_in_range t mn mx = length (filter (\<lambda>c. mn \<le> c \<and> c \<le> mx) [t, t / 2, t * 2])"

text \<open>Inputs used by the worked scenarios below.\<close>

definition track78 :: track where
  "track78 = \<lparr>track_id = ''t78'', duration_ms = Some 200000, added_at = 0, sourcePlaylist = None\<rparr>"

definition track80 :: track where
  "track80 = \<lparr>track_id = ''t80'', duration_ms = Some 180000, added_at = 0, sourcePlaylist = None\<rparr>"

section \<open>Tempo oracle: getTrackBPMWithGemini\<close>

text \<open>
  One tier's \<^verbatim>\<open>await model.generateContent(basePrompt)\<close> either rejects (a transport
  fault) or resolves with a result, which may lack a response or carry the response text.
\<close>

datatype gen_result = NoResponse | ResponseText string

datatype api_result = Rejects | Resolves gen_result

datatype tier = PRIMARY | SECONDARY | TERTIARY

text \<open>
  A text is the list of its UTF-16 code units, each below 256 (\<open>char\<close>). Among these the
  white space that \<^verbatim>\<open>String.prototype.trim\<close> strips is tab, line feed, vertical tab, form
  feed, carriage return, space and the no-break space U+00A0.
\<close>

definition is_space :: "char \<Rightarrow> bool" where
  "is_space c = (c \<in> set [CHR '' '', CHR 0x09, CHR 0x0A, CHR 0x0B, CHR 0x0C, CHR 0x0D, CHR 0xA0])"

definition trim :: "string \<Rightarrow> string" where
  "trim s = rev (dropWhile is_space (rev (dropWhile is_space s)))"

definition is_digit :: "char \<Rightarrow> bool" where
  "is_digit c = (c \<in> set ''0123456789'')"

definition digits_val :: "string \<Rightarrow> int" where
  "digits_val ds = foldl (\<lambda>a c. 10 * a + int (of_char c - 48)) 0 ds"

text \<open>
  \<^verbatim>\<open>bpmText.match(/(\d+\.?\d*)/)\<close>: the leftmost run of digits, then a dot if one follows,
  then the digits after it. The result is the integer part and the fraction digits.
\<close>

definition decimalMatch :: "string \<Rightarrow> (string \<times> string) option" where
  "decimalMatch bpmText =
     (case dropWhile (\<lambda>c. \<not> is_digit c) bpmText of
        [] \<Rightarrow> None
      | d # ds \<Rightarrow>
          (let ip = takeWhile is_digit (d # ds);
               rest = dropWhile is_digit (d # ds)
           in case rest of
                [] \<Rightarrow> Some (ip, [])
              | c # r \<Rightarrow> if c = CHR ''.'' then Some (ip, takeWhile is_digit r) else Some (ip, [])))"

text \<open>
  The Number value of a non-negative mathematical value: the IEEE 754 double nearest to it,
  ties to the even significand. \<open>floor_log2 x\<close> is the binary exponent of \<open>x > 0\<close> (the
  \<open>e\<close> with \<open>2^e \<le> x < 2^(e+1)\<close>); doubles with exponent \<open>e\<close> are the multiples of
  \<open>2^(e-52)\<close>, and below \<open>2^-1022\<close> the spacing of the subnormal doubles applies; a value
  that rounds to \<open>2^1024\<close> or more (binary exponent 1024 or more) is \<^verbatim>\<open>Infinity\<close>, written
  \<open>None\<close>.
\<close>

definition pow2 :: "int \<Rightarrow> rat" where
  "pow2 e = (if 0 \<le> e then 2 ^ nat e else 1 / 2 ^ nat (- e))"

definition floor_log2 :: "rat \<Rightarrow> int" where
  "floor_log2 x = (if 1 \<le> x then bitlen \<lfloor>x\<rfloor> - 1 else - bitlen (\<lceil>1 / x\<rceil> - 1))"

definition round_half_even :: "rat \<Rightarrow> int" where
  "round_half_even x =
     (let f = \<lfloor>x\<rfloor>; d = x - of_int f
      in if d < 1 / 2 then f else if 1 / 2 < d then f + 1 else if even f then f else f + 1)"

definition to_double :: "rat \<Rightarrow> rat option" where
  "to_double x =
     (if x = 0 then Some 0
      else
        (let e = max (floor_log2 x) (- 1022);
             q = pow2 (e - 52);
             v = of_int (round_half_even (x / q)) * q
         in if 1024 \<le> floor_log2 v then None else Some v))"

text \<open>
  \<^verbatim>\<open>parseFloat(decimalMatch[1])\<close>: the double nearest to the decimal. When the pattern does
  not match, the text holds no digit, \<^verbatim>\<open>parseFloat(bpmText)\<close> is \<^verbatim>\<open>NaN\<close> or an
  infinity, and the tier's validity test fails either way: every value that is not a
  finite number is \<open>None\<close>.
\<close>

definition parsed_bpm :: "string \<Rightarrow> rat option" where
  "parsed_bpm bpmText =
     (case decimalMatch bpmText of
        None \<Rightarrow> None
      | Some (ip, fp) \<Rightarrow>
          to_double (of_int (digits_val ip) + of_int (digits_val fp) / 10 ^ length fp))"

datatype extract_error = NoResponseFrom | EmptyResponseFrom

text \<open>\<^verbatim>\<open>extractBPMData\<close>: throws, or returns \<^verbatim>\<open>bpmText\<close> and \<^verbatim>\<open>bpm\<close>.\<close>

definition extractBPMData :: "gen_result \<Rightarrow> extract_error + (string \<times> rat option)" where
  "extractBPMData result =
     (case result of
        NoResponse \<Rightarrow> Inl NoResponseFrom
      | ResponseText reply \<Rightarrow>
          (let bpmText = trim reply
           in if bpmText = [] then Inl EmptyResponseFrom
              else Inr (bpmText, parsed_bpm bpmText)))"

text \<open>
  What the function reports: \<^verbatim>\<open>console.error\<close> in a tier's \<^verbatim>\<open>catch\<close> block and on the
  all-tiers-failed path, the entries passed to \<^verbatim>\<open>addGeminiLog\<close> (tier, raw response,
  parsed BPM, valid) and the updates passed to \<^verbatim>\<open>updateLiveStatus\<close>. The two callbacks
  receive their events when the caller supplied them.
\<close>

datatype status_value = Str string | Num rat | Null

datatype event =
    ConsoleError tier
  | ConsoleErrorAllFailed
  | GeminiLog tier string "rat option" bool
  | GeminiLogAllFailed
  | LiveStatus "(string \<times> status_value) list"

record tier_run =
  tier_bpm :: "rat option"
  tier_called :: bool
  tier_events :: "event list"

fun tier_field :: "tier \<Rightarrow> string" where
  "tier_field PRIMARY = ''primary''"
| "tier_field SECONDARY = ''secondary''"
| "tier_field TERTIARY = ''tertiary''"

fun rawResponse :: "tier \<Rightarrow> string \<Rightarrow> string" where
  "rawResponse PRIMARY bpmText = bpmText"
| "rawResponse SECONDARY bpmText = ''SECONDARY: '' @ bpmText"
| "rawResponse TERTIARY bpmText = ''TERTIARY: '' @ bpmText"

fun on_success :: "tier \<Rightarrow> rat \<Rightarrow> (string \<times> status_value) list" where
  "on_success PRIMARY bpm =
     [(''primary'', Str ''success''), (''secondary'', Str ''skipped''),
      (''tertiary'', Str ''skipped''), (''finalBPM'', Num bpm)]"
| "on_success SECONDARY bpm =
     [(''secondary'', Str ''success''), (''tertiary'', Str ''skipped''), (''finalBPM'', Num bpm)]"
| "on_success TERTIARY bpm = [(''tertiary'', Str ''success''), (''finalBPM'', Num bpm)]"

fun on_failure :: "tier \<Rightarrow> string \<Rightarrow> (string \<times> status_value) list" where
  "on_failure PRIMARY how = [(''primary'', Str how), (''secondary'', Str ''running'')]"
| "on_failure SECONDARY how = [(''secondary'', Str how), (''tertiary'', Str ''running'')]"
| "on_failure TERTIARY how = [(''tertiary'', Str how), (''finalBPM'', Null)]"

text \<open>The \<^verbatim>\<open>catch\<close> block of a tier.\<close>

definition on_catch :: "tier \<Rightarrow> event list" where
  "on_catch T = [ConsoleError T, LiveStatus (on_failure T ''error'')]"

text \<open>
  One tier's \<^verbatim>\<open>try { ... } catch { ... }\<close>. \<open>aborted k\<close> is what \<^verbatim>\<open>abortSignal?.aborted\<close>
  reads once \<open>k\<close> oracle calls have returned (the signal can only change while the function
  is suspended in a call; a missing signal is never aborted). Every \<^verbatim>\<open>throw\<close> of the
  block, the cancellation ones included, lands in its own \<^verbatim>\<open>catch\<close>.
\<close>

definition attempt_tier :: "tier \<Rightarrow> (nat \<Rightarrow> bool) \<Rightarrow> nat \<Rightarrow> api_result \<Rightarrow> tier_run" where
  "attempt_tier T aborted k res =
     (if aborted k then \<lparr>tier_bpm = None, tier_called = False, tier_events = on_catch T\<rparr>
      else
        (case res of
           Rejects \<Rightarrow>
             \<lparr>tier_bpm = None, tier_called = True,
              tier_events = [LiveStatus [(tier_field T, Str ''sending...'')]] @ on_catch T\<rparr>
         | Resolves result \<Rightarrow>
             (let seen = [LiveStatus [(tier_field T, Str ''sending...'')],
                          LiveStatus [(tier_field T, Str ''processing...'')]]
              in if aborted (Suc k) then
                   \<lparr>tier_bpm = None, tier_called = True, tier_events = seen @ on_catch T\<rparr>
                 else
                   (case extractBPMData result of
                      Inl err \<Rightarrow>
                        \<lparr>tier_bpm = None, tier_called = True, tier_events = seen @ on_catch T\<rparr>
                    | Inr (bpmText, bpm) \<Rightarrow>
                        (case bpm of
                           None \<Rightarrow>
                             \<lparr>tier_bpm = None, tier_called = True,
                              tier_events = seen @ [GeminiLog T (rawResponse T bpmText) bpm False,
                                LiveStatus (on_failure T ''failed'')]\<rparr>
                         | Some b \<Rightarrow>
                             if b > 0 \<and> b < 300 then
                               \<lparr>tier_bpm = Some b, tier_called = True,
                                tier_events = seen @ [GeminiLog T (rawResponse T bpmText) bpm True,
                                  LiveStatus (on_success T b)]\<rparr>
                             else
                               \<lparr>tier_bpm = None, tier_called = True,
                                tier_events = seen @ [GeminiLog T (rawResponse T bpmText) bpm False,
                                  LiveStatus (on_failure T ''failed'')]\<rparr>)))))"

record oracle_run =
  outcome :: "string + rat option"
  calls :: "tier list"
  events :: "event list"

text \<open>
  \<^verbatim>\<open>getTrackBPMWithGemini(title, artist, geminiApiKey, addGeminiLog, abortSignal,
  updateLiveStatus)\<close>. \<open>api T\<close> is what tier \<open>T\<close>'s call yields if it is made. The result
  holds the value returned (\<open>Inr\<close>, with \<open>None\<close> for \<^verbatim>\<open>null\<close>) or the message of the
  error thrown to the caller (\<open>Inl\<close>), the tiers whose call was made, and the events.
\<close>

definition getTrackBPMWithGemini ::
  "string \<Rightarrow> (nat \<Rightarrow> bool) \<Rightarrow> (tier \<Rightarrow> api_result) \<Rightarrow> oracle_run" where
  "getTrackBPMWithGemini geminiApiKey aborted api =
     (if geminiApiKey = [] then
        \<lparr>outcome = Inl ''Gemini API key is required'', calls = [], events = []\<rparr>
      else if aborted 0 then
        \<lparr>outcome = Inl ''Request cancelled before starting'', calls = [], events = []\<rparr>
      else
        (let init = [LiveStatus [(''primary'', Str ''running''), (''secondary'', Str ''pending''),
                       (''tertiary'', Str ''pending''), (''finalBPM'', Null)]];
             r1 = attempt_tier PRIMARY aborted 0 (api PRIMARY);
             c1 = (if tier_called r1 then [PRIMARY] else [])
         in case tier_bpm r1 of
              Some bpm \<Rightarrow> \<lparr>outcome = Inr (Some bpm), calls = c1, events = init @ tier_events r1\<rparr>
            | None \<Rightarrow>
                (let r2 = attempt_tier SECONDARY aborted (length c1) (api SECONDARY);
                     c2 = c1 @ (if tier_called r2 then [SECONDARY] else [])
                 in case tier_bpm r2 of
                      Some bpm \<Rightarrow>
                        \<lparr>outcome = Inr (Some bpm), calls = c2,
                         events = init @ tier_events r1 @ tier_events r2\<rparr>
                    | None \<Rightarrow>
                        (let r3 = attempt_tier TERTIARY aborted (length c2) (api TERTIARY);
                             c3 = c2 @ (if tier_called r3 then [TERTIARY] else [])
                         in case tier_bpm r3 of
                              Some bpm \<Rightarrow>
                                \<lparr>outcome = Inr (Some bpm), calls = c3,
                                 events = init @ tier_events r1 @ tier_events r2 @ tier_events r3\<rparr>
                            | None \<Rightarrow>
                                \<lparr>outcome = Inr None, calls = c3,
                                 events = init @ tier_events r1 @ tier_events r2 @ tier_events r3 @
                                   [ConsoleErrorAllFailed, LiveStatus [(''finalBPM'', Null)],
                                    GeminiLogAllFailed]\<rparr>))))"

text \<open>\<^verbatim>\<open>String.prototype.includes\<close>\<close>

fun includes_str :: "string \<Rightarrow> string \<Rightarrow> bool" where
  "includes_str [] sub = (sub = [])"
| "includes_str (c # cs) sub = (take (length sub) (c # cs) = sub \<or> includes_str cs sub)"

text \<open>
  What \<^verbatim>\<open>processTrack\<close> (inside \<^verbatim>\<open>fetchTemposForTracksWithGemini\<close>) makes of one oracle
  run: the \<^verbatim>\<open>bpm\<close> it reports and whether it marks the result \<^verbatim>\<open>cancelled: true\<close>.
\<close>

record track_result =
  result_bpm :: "rat option"
  cancelled :: bool

definition processTrack :: "oracle_run \<Rightarrow> track_result" where
  "processTrack run =
     (case outcome run of
        Inr bpm \<Rightarrow> \<lparr>result_bpm = bpm, cancelled = False\<rparr>
      | Inl message \<Rightarrow>
          if includes_str message ''cancelled'' then \<lparr>result_bpm = None, cancelled = True\<rparr>
          else \<lparr>result_bpm = None, cancelled = False\<rparr>)"

text \<open>
  The value a tier's call yields when it is parseable and strictly within \<open>(0, 300)\<close>;
  \<open>None\<close> when the tier fails (exception, no or empty text, unparseable or out-of-bound
  number).
\<close>

definition tier_yield :: "api_result \<Rightarrow> rat option" where
  "tier_yield res =
     (case res of
        Rejects \<Rightarrow> None
      | Resolves result \<Rightarrow>
          (case extractBPMData result of
             Inl err \<Rightarrow> None
           | Inr (bpmText, None) \<Rightarrow> None
           | Inr (bpmText, Some b) \<Rightarrow> if 0 < b \<and> b < 300 then Some b else None))"




text \<open>
  Decimal notation, to state what a text denotes: the digits of a natural number, the
  value of a string of fraction digits, and what may follow a number in a text (nothing,
  or a character that is neither a digit nor a dot).
\<close>

definition digit_char :: "nat \<Rightarrow> char" where
  "digit_char d = ''0123456789'' ! d"

fun digits_of :: "nat \<Rightarrow> string" where
  "digits_of n = (if n < 10 then [digit_char n] else digits_of (n div 10) @ [digit_char (n mod 10)])"

declare digits_of.simps [simp del]

fun fraction_value :: "string \<Rightarrow> rat" where
  "fraction_value [] = 0"
| "fraction_value (c # cs) = (of_nat (of_char c - 48) + fraction_value cs) / 10"

definition no_digit :: "string \<Rightarrow> bool" where
  "no_digit pre = (filter is_digit pre = [])"

definition all_digits :: "string \<Rightarrow> bool" where
  "all_digits ds = (filter is_digit ds = ds)"

definition ends_number :: "string \<Rightarrow> bool" where
  "ends_number post = (case post of [] \<Rightarrow> True | c # cs \<Rightarrow> \<not> is_digit c \<and> c \<noteq> CHR ''.'')"

definition ends_fraction :: "string \<Rightarrow> bool" where
  "ends_fraction post = (case post of [] \<Rightarrow> True | c # cs \<Rightarrow> \<not> is_digit c)"

text \<open>The tier's validity test \<^verbatim>\<open>!isNaN(bpm) && bpm > 0 && bpm < 300\<close> on a parsed value.\<close>

definition within_bounds :: "rat option \<Rightarrow> rat option" where
  "within_bounds bpm =
     (case bpm of None \<Rightarrow> None | Some b \<Rightarrow> if 0 < b \<and> b < 300 then Some b else None)"

text \<open>The oracle answers of Scenario B; the third tier would answer too, if asked.\<close>

definition scenario_B_api :: "tier \<Rightarrow> api_result" where
  "scenario_B_api T =
     (case T of
        PRIMARY \<Rightarrow> Resolves (ResponseText ''unknown'')
      | SECONDARY \<Rightarrow> Resolves (ResponseText ''128 BPM'')
      | TERTIARY \<Rightarrow> Resolves (ResponseText ''90''))"

section \<open>Scheduler: fetchTemposForTracksWithGemini (rolling window)\<close>

definition maxConcurrent :: nat where
  "maxConcurrent = 30"

text \<open>
  The variables of one call. A promise returned by \<^verbatim>\<open>processTrack\<close> is identified by the
  index of its track; the flag tells whether it was created by the initial \<^verbatim>\<open>while\<close>
  loop, whose \<^verbatim>\<open>finally\<close> handler starts the next track, or by such a handler, whose own
  handler only deletes the promise. \<open>settled\<close> lists the promises that have resolved,
  \<open>tempos\<close> the assignments \<^verbatim>\<open>tempos[track.id] = bpm\<close> (latest first), \<open>aborted\<close> is
  \<^verbatim>\<open>abortSignal?.aborted\<close>, and \<open>returned\<close> tells whether the function has returned.
\<close>

record sched =
  currentIndex :: nat
  activePromises :: "(nat \<times> bool) list"
  settled :: "nat list"
  completed :: nat
  tempos_found :: "(nat \<times> rat) list"
  aborted_flag :: bool
  returned :: bool

text \<open>
  The initial \<^verbatim>\<open>while (currentIndex < tracks.length && activePromises.size < maxConcurrent)\<close>
  loop over \<open>n\<close> tracks. It runs without suspension: no promise settles and no handler runs
  before it ends.
\<close>

function start_batch :: "nat \<Rightarrow> sched \<Rightarrow> sched" where
  "start_batch n s =
     (if currentIndex s < n \<and> length (activePromises s) < maxConcurrent then
        (if aborted_flag s then s
         else start_batch n
                (s\<lparr>activePromises := activePromises s @ [(currentIndex s, True)],
                   currentIndex := Suc (currentIndex s)\<rparr>))
      else s)"
  by pat_completeness auto
termination
  by (relation "measure (\<lambda>(n, s). n - currentIndex s)") auto

declare start_batch.simps [simp del]

text \<open>
  The state when the function first suspends: \<^verbatim>\<open>if (!tracks || tracks.length === 0)
  return {}\<close>, else the initial loop has run.
\<close>

definition fetch_start :: "nat \<Rightarrow> bool \<Rightarrow> sched" where
  "fetch_start n ab =
     (let s0 = \<lparr>currentIndex = 0, activePromises = [], settled = [], completed = 0,
                tempos_found = [], aborted_flag = ab, returned = False\<rparr>
      in if n = 0 then s0\<lparr>returned := True\<rparr> else start_batch n s0)"

text \<open>
  What can happen next. \<open>Settle i bpm\<close>: the \<^verbatim>\<open>processTrack\<close> promise of track \<open>i\<close>
  resolves with \<open>bpm\<close>. \<open>Finally i\<close>: the \<^verbatim>\<open>finally\<close> handler of that settled promise
  runs. \<open>Abort\<close>: the user cancels. \<open>Return\<close>: the waiting loop
  \<^verbatim>\<open>while (activePromises.size > 0 && !abortSignal?.aborted)\<close> finds its condition false
  and the function returns.
\<close>

datatype sched_event = Settle nat "rat option" | Finally nat | Abort | Return

fun sched_step :: "nat \<Rightarrow> sched \<Rightarrow> sched_event \<Rightarrow> sched option" where
  "sched_step n s (Settle i bpm) =
     (if i \<in> fst ` set (activePromises s) \<and> i \<notin> set (settled s) then
        Some (s\<lparr>settled := i # settled s,
                completed := Suc (completed s),
                tempos_found := (case bpm of None \<Rightarrow> tempos_found s
                                 | Some b \<Rightarrow> (i, b) # tempos_found s)\<rparr>)
      else None)"
| "sched_step n s (Finally i) =
     (case find (\<lambda>p. fst p = i) (activePromises s) of
        None \<Rightarrow> None
      | Some p \<Rightarrow>
          if i \<in> set (settled s) then
            (let s1 = s\<lparr>activePromises := remove1 p (activePromises s)\<rparr>
             in if snd p \<and> currentIndex s1 < n \<and> \<not> aborted_flag s1 then
                  Some (s1\<lparr>activePromises := activePromises s1 @ [(currentIndex s1, False)],
                           currentIndex := Suc (currentIndex s1)\<rparr>)
                else Some s1)
          else None)"
| "sched_step n s Abort = Some (s\<lparr>aborted_flag := True\<rparr>)"
| "sched_step n s Return =
     (if \<not> returned s \<and> (activePromises s = [] \<or> aborted_flag s) then Some (s\<lparr>returned := True\<rparr>)
      else None)"

fun run_events :: "nat \<Rightarrow> sched \<Rightarrow> sched_event list \<Rightarrow> sched option" where
  "run_events n s [] = Some s"
| "run_events n s (e # es) =
     (case sched_step n s e of None \<Rightarrow> None | Some s' \<Rightarrow> run_events n s' es)"

text \<open>The states an execution over \<open>n\<close> tracks can be in.\<close>

inductive reachable :: "nat \<Rightarrow> bool \<Rightarrow> sched \<Rightarrow> bool" for n :: nat and ab :: bool where
  start: "reachable n ab (fetch_start n ab)"
| step: "reachable n ab s \<Longrightarrow> sched_step n s e = Some s' \<Longrightarrow> reachable n ab s'"

text \<open>The operations that have been started and have not settled.\<close>

definition unsettled :: "sched \<Rightarrow> nat list" where
  "unsettled s = filter (\<lambda>i. i \<notin> set (settled s)) [0..<currentIndex s]"

text \<open>
  An execution in which every started operation settles and its handler runs at once, in
  the order the operations were started, after which the function returns.
\<close>

definition in_order_run :: "nat \<Rightarrow> sched_event list" where
  "in_order_run k = concat (map (\<lambda>i. [Settle i (Some 120), Finally i]) [0..<k]) @ [Return]"

section \<open>Catalog client: spGet, spPost\<close>

text \<open>
  The answer of the catalog server to one request: status 401, status 429 with its
  \<^verbatim>\<open>Retry-After\<close> header (in seconds, if present), a success with its body, or another
  failure status.
\<close>

datatype http_response = Http401 | Http429 "nat option" | HttpOk string | HttpError nat

datatype sp_error = RefreshFailed | GetFailed nat | PostFailed

text \<open>
  The result of a call: the value returned (\<open>Inr\<close>) or the error thrown (\<open>Inl\<close>), or
  \<open>None\<close> while the call is still waiting for an answer; the number of requests sent to the
  catalog, the number of calls of \<^verbatim>\<open>refreshSpotifyToken\<close>, and the time slept.
\<close>

record sp_run =
  sp_outcome :: "(sp_error + string) option"
  fetch_calls :: nat
  refresh_calls :: nat
  slept_ms :: nat

definition after_fetch :: "sp_run \<Rightarrow> sp_run" where
  "after_fetch r = r\<lparr>fetch_calls := Suc (fetch_calls r)\<rparr>"

definition after_refresh :: "sp_run \<Rightarrow> sp_run" where
  "after_refresh r = r\<lparr>refresh_calls := Suc (refresh_calls r)\<rparr>"

definition after_sleep :: "nat \<Rightarrow> sp_run \<Rightarrow> sp_run" where
  "after_sleep ms r = r\<lparr>slept_ms := ms + slept_ms r\<rparr>"

definition finished :: "sp_error + string \<Rightarrow> sp_run" where
  "finished v = \<lparr>sp_outcome = Some v, fetch_calls = 0, refresh_calls = 0, slept_ms = 0\<rparr>"

definition waiting :: sp_run where
  "waiting = \<lparr>sp_outcome = None, fetch_calls = 0, refresh_calls = 0, slept_ms = 0\<rparr>"

text \<open>
  \<^verbatim>\<open>spGet(path, params)\<close> against a server that answers the successive requests with
  \<open>responses\<close> and a token endpoint whose successive answers are \<open>refreshes\<close> (\<open>True\<close> for
  \<^verbatim>\<open>res.ok\<close>). Each recursive call of the source sends one more request, so the recursion
  follows the list of answers; when the list is used up the call is still waiting.
\<close>

fun spGet :: "http_response list \<Rightarrow> bool list \<Rightarrow> sp_run" where
  "spGet [] refreshes = after_fetch waiting"
| "spGet (Http401 # responses) [] = after_fetch (after_refresh waiting)"
| "spGet (Http401 # responses) (ok # refreshes) =
     after_fetch (after_refresh
       (if ok then spGet responses refreshes else finished (Inl RefreshFailed)))"
| "spGet (Http429 header # responses) refreshes =
     (let retryAfter = (case header of None \<Rightarrow> 5 | Some secs \<Rightarrow> secs)
      in after_fetch (after_sleep (retryAfter * 1000) (after_sleep 2000 (spGet responses refreshes))))"
| "spGet (HttpError status # responses) refreshes = after_fetch (finished (Inl (GetFailed status)))"
| "spGet (HttpOk body # responses) refreshes = after_fetch (finished (Inr body))"

text \<open>\<^verbatim>\<open>spPost(path, body)\<close>: the same on 401; every other failure status throws.\<close>

fun spPost :: "http_response list \<Rightarrow> bool list \<Rightarrow> sp_run" where
  "spPost [] refreshes = after_fetch waiting"
| "spPost (Http401 # responses) [] = after_fetch (after_refresh waiting)"
| "spPost (Http401 # responses) (ok # refreshes) =
     after_fetch (after_refresh
       (if ok then spPost responses refreshes else finished (Inl RefreshFailed)))"
| "spPost (Http429 header # responses) refreshes = after_fetch (finished (Inl PostFailed))"
| "spPost (HttpError status # responses) refreshes = after_fetch (finished (Inl PostFailed))"
| "spPost (HttpOk body # responses) refreshes = after_fetch (finished (Inr body))"

section \<open>Pagination: loadPlaylists, getAllSavedTracks\<close>

text \<open>
  The catalog's answer to \<^verbatim>\<open>spGet(url, { limit, offset })\<close> over a collection:
  \<^verbatim>\<open>page.items\<close>.
\<close>

definition page_items :: "'a list \<Rightarrow> nat \<Rightarrow> nat \<Rightarrow> 'a list" where
  "page_items collection limit offset = take limit (drop offset collection)"

text \<open>
  \<^verbatim>\<open>loadPlaylists(maxPlaylists)\<close> of \<^verbatim>\<open>part_002\<close>: the loop
  \<^verbatim>\<open>while (next && out.length < maxPlaylists)\<close>, entered with \<^verbatim>\<open>next = true\<close>; it requests
  \<^verbatim>\<open>limit: 50\<close> and sets \<^verbatim>\<open>next = page.items.length === 20 && out.length < maxPlaylists\<close>.
  The result is \<^verbatim>\<open>out\<close> and \<^verbatim>\<open>requestCount\<close>.
\<close>

function loadPlaylists_loop :: "'a list \<Rightarrow> nat \<Rightarrow> 'a list \<Rightarrow> nat \<Rightarrow> 'a list \<times> nat" where
  "loadPlaylists_loop playlists maxPlaylists out requestCount =
     (if length out < maxPlaylists then
        (let page = page_items playlists 50 (length out);
             out' = out @ page;
             next = (length page = 20 \<and> length out' < maxPlaylists)
         in if next then loadPlaylists_loop playlists maxPlaylists out' (Suc requestCount)
            else (out', Suc requestCount))
      else (out, requestCount))"
  by pat_completeness auto
termination
  by (relation "measure (\<lambda>(playlists, maxPlaylists, out, requestCount). maxPlaylists - length out)")
     auto

declare loadPlaylists_loop.simps [simp del]

definition loadPlaylists :: "'a list \<Rightarrow> nat \<Rightarrow> 'a list \<times> nat" where
  "loadPlaylists playlists maxPlaylists = loadPlaylists_loop playlists maxPlaylists [] 0"

text \<open>
  \<^verbatim>\<open>loadPlaylists()\<close> of the earlier version (\<^verbatim>\<open>part_003\<close>): \<^verbatim>\<open>limit: 50\<close> and
  \<^verbatim>\<open>next = page.items.length === 50\<close>.
\<close>

function loadPlaylists_v1_loop :: "'a list \<Rightarrow> 'a list \<Rightarrow> nat \<Rightarrow> 'a list \<times> nat" where
  "loadPlaylists_v1_loop playlists out requestCount =
     (let page = page_items playlists 50 (length out);
          out' = out @ page
      in if length page = 50 then loadPlaylists_v1_loop playlists out' (Suc requestCount)
         else (out', Suc requestCount))"
  by pat_completeness auto
termination
  by (relation "measure (\<lambda>(playlists, out, requestCount). length playlists - length out)")
     (auto simp: page_items_def)

declare loadPlaylists_v1_loop.simps [simp del]

definition loadPlaylists_v1 :: "'a list \<Rightarrow> 'a list \<times> nat" where
  "loadPlaylists_v1 playlists = loadPlaylists_v1_loop playlists [] 0"

text \<open>
  \<^verbatim>\<open>getAllSavedTracks()\<close>: \<^verbatim>\<open>limit: 10\<close>, \<^verbatim>\<open>more = page.items.length === 10\<close>,
  \<^verbatim>\<open>offset += 10\<close>. \<open>usable\<close> is the filter \<^verbatim>\<open>t && t.id && !t.is_local\<close>. The result is
  \<^verbatim>\<open>items\<close> and \<^verbatim>\<open>requestCount\<close>.
\<close>

function getAllSavedTracks_loop ::
  "('a \<Rightarrow> bool) \<Rightarrow> 'a list \<Rightarrow> 'a list \<Rightarrow> nat \<Rightarrow> nat \<Rightarrow> 'a list \<times> nat" where
  "getAllSavedTracks_loop usable saved items offset requestCount =
     (let page = page_items saved 10 offset;
          items' = items @ filter usable page
      in if length page = 10 then
           getAllSavedTracks_loop usable saved items' (offset + 10) (Suc requestCount)
         else (items', Suc requestCount))"
  by pat_completeness auto
termination
  by (relation "measure (\<lambda>(usable, saved, items, offset, requestCount). length saved - offset)")
     (auto simp: page_items_def)

declare getAllSavedTracks_loop.simps [simp del]

definition getAllSavedTracks :: "('a \<Rightarrow> bool) \<Rightarrow> 'a list \<Rightarrow> 'a list \<times> nat" where
  "getAllSavedTracks usable saved = getAllSavedTracks_loop usable saved [] 0 0"

section \<open>Invariants used in the proofs\<close>

text \<open>What holds while the initial loop of the scheduler runs.\<close>

definition batch_inv :: "sched \<Rightarrow> bool" where
  "batch_inv s \<longleftrightarrow>
     length (activePromises s) \<le> maxConcurrent \<and>
     map fst (activePromises s) = [0..<currentIndex s] \<and>
     filter snd (activePromises s) = activePromises s \<and>
     settled s = []"

text \<open>
  What holds in every state of the scheduler: the active set is within the cap, every
  started operation is active or settled, and every track started beyond the initial batch
  was started by the handler of an initial promise, which is then no longer active.
\<close>

definition sched_inv :: "sched \<Rightarrow> bool" where
  "sched_inv s \<longleftrightarrow>
     length (activePromises s) \<le> maxConcurrent \<and>
     (\<forall>i < currentIndex s. i \<in> fst ` set (activePromises s) \<or> i \<in> set (settled s)) \<and>
     currentIndex s + length (filter snd (activePromises s)) \<le> 2 * maxConcurrent"

section \<open>Tempo matcher\<close>

lemma filterTracksByTempo_single:
  assumes "tempos (track_id t) = Some x" "x \<noteq> 0"
  shows "filterTracksByTempo [t] tempos (mn, mx) =
    (if mn \<le> x \<and> x \<le> mx then
       [\<lparr>tr = t, tempo = Some x, originalTempo = Some x, tempoType = ''original''\<rparr>]
     else if mn \<le> x / 2 \<and> x / 2 \<le> mx then
       [\<lparr>tr = t, tempo = Some (x / 2), originalTempo = Some x, tempoType = ''half-time''\<rparr>]
     else if mn \<le> x * 2 \<and> x * 2 \<le> mx then
       [\<lparr>tr = t, tempo = Some (x * 2), originalTempo = Some x, tempoType = ''double-time''\<rparr>]
     else [])"
  using assms
  by (simp add: filterTracksByTempo_def filterTracksByTempo_keep_def filterTracksByTempo_map_def Let_def)

lemma tr_filterTracksByTempo_map [simp]: "tr (filterTracksByTempo_map tempos rng t) = t"
  by (cases rng) (simp add: filterTracksByTempo_map_def Let_def split: option.splits)

lemma processTrackForSelection_accept:
  assumes "currentDurationMs s < targetDurationMs cfg"
  shows "snd (processTrackForSelection cfg t (Some x) s) =
    (if minTempo cfg \<le> x \<and> x \<le> maxTempo cfg then
       s\<lparr>selectedTracks := selectedTracks s @ [\<lparr>tr = t, tempo = Some x, originalTempo = Some x, tempoType = ''original''\<rparr>],
         currentDurationMs := currentDurationMs s + duration_or_0 t\<rparr>
     else if minTempo cfg \<le> x / 2 \<and> x / 2 \<le> maxTempo cfg then
       s\<lparr>selectedTracks := selectedTracks s @ [\<lparr>tr = t, tempo = Some (x / 2), originalTempo = Some x, tempoType = ''half-time''\<rparr>],
         currentDurationMs := currentDurationMs s + duration_or_0 t\<rparr>
     else if minTempo cfg \<le> x * 2 \<and> x * 2 \<le> maxTempo cfg then
       s\<lparr>selectedTracks := selectedTracks s @ [\<lparr>tr = t, tempo = Some (x * 2), originalTempo = Some x, tempoType = ''double-time''\<rparr>],
         currentDurationMs := currentDurationMs s + duration_or_0 t\<rparr>
     else s)"
  using assms
  by (simp add: processTrackForSelection_def Let_def)

text \<open>
  Claim C1. A track whose tempo entry is resolved (present and non-zero, which is what
  \<^verbatim>\<open>if (!tempo) return false\<close> asks for; the oracle only returns values in \<open>(0, 300)\<close>)
  is in the output of \<^verbatim>\<open>filterTracksByTempo\<close> if and only if \<open>t\<close>, \<open>t/2\<close> or \<open>t*2\<close> lies
  in the inclusive range; the match carries the raw tempo as \<^verbatim>\<open>originalTempo\<close> and reports
  the first candidate in range in the order original, half-time, double-time.
  \<^verbatim>\<open>processTrackForSelection\<close>, while the duration target is not yet reached, appends
  exactly that match, and leaves the selection unchanged when no candidate is in range.
\<close>

theorem tempo_matcher_accepts_iff_candidate_in_range:
  assumes "t \<in> set tracks" and "tempos (track_id t) = Some x" and "x \<noteq> 0"
    and "currentDurationMs s < targetDurationMs cfg"
  shows
    "((\<exists>r \<in> set (filterTracksByTempo tracks tempos (mn, mx)). tr r = t) \<longleftrightarrow>
        (mn \<le> x \<and> x \<le> mx) \<or> (mn \<le> x / 2 \<and> x / 2 \<le> mx) \<or> (mn \<le> x * 2 \<and> x * 2 \<le> mx)) \<and>
     (\<forall>r \<in> set (filterTracksByTempo tracks tempos (mn, mx)). tr r = t \<longrightarrow>
        r = (if mn \<le> x \<and> x \<le> mx then
               \<lparr>tr = t, tempo = Some x, originalTempo = Some x, tempoType = ''original''\<rparr>
             else if mn \<le> x / 2 \<and> x / 2 \<le> mx then
               \<lparr>tr = t, tempo = Some (x / 2), originalTempo = Some x, tempoType = ''half-time''\<rparr>
             else
               \<lparr>tr = t, tempo = Some (x * 2), originalTempo = Some x, tempoType = ''double-time''\<rparr>)) \<and>
     filterTracksByTempo [t] tempos (mn, mx) =
       (if mn \<le> x \<and> x \<le> mx then
          [\<lparr>tr = t, tempo = Some x, originalTempo = Some x, tempoType = ''original''\<rparr>]
        else if mn \<le> x / 2 \<and> x / 2 \<le> mx then
          [\<lparr>tr = t, tempo = Some (x / 2), originalTempo = Some x, tempoType = ''half-time''\<rparr>]
        else if mn \<le> x * 2 \<and> x * 2 \<le> mx then
          [\<lparr>tr = t, tempo = Some (x * 2), originalTempo = Some x, tempoType = ''double-time''\<rparr>]
        else []) \<and>
     snd (processTrackForSelection (cfg\<lparr>minTempo := mn, maxTempo := mx\<rparr>) t (Some x) s) =
       (if mn \<le> x \<and> x \<le> mx then
          s\<lparr>selectedTracks := selectedTracks s @
               [\<lparr>tr = t, tempo = Some x, originalTempo = Some x, tempoType = ''original''\<rparr>],
            currentDurationMs := currentDurationMs s + duration_or_0 t\<rparr>
        else if mn \<le> x / 2 \<and> x / 2 \<le> mx then
          s\<lparr>selectedTracks := selectedTracks s @
               [\<lparr>tr = t, tempo = Some (x / 2), originalTempo = Some x, tempoType = ''half-time''\<rparr>],
            currentDurationMs := currentDurationMs s + duration_or_0 t\<rparr>
        else if mn \<le> x * 2 \<and> x * 2 \<le> mx then
          s\<lparr>selectedTracks := selectedTracks s @
               [\<lparr>tr = t, tempo = Some (x * 2), originalTempo = Some x, tempoType = ''double-time''\<rparr>],
            currentDurationMs := currentDurationMs s + duration_or_0 t\<rparr>
        else s)"
proof (intro conjI)
  have single: "filterTracksByTempo [t] tempos (mn, mx) =
       (if mn \<le> x \<and> x \<le> mx then
          [\<lparr>tr = t, tempo = Some x, originalTempo = Some x, tempoType = ''original''\<rparr>]
        else if mn \<le> x / 2 \<and> x / 2 \<le> mx then
          [\<lparr>tr = t, tempo = Some (x / 2), originalTempo = Some x, tempoType = ''half-time''\<rparr>]
        else if mn \<le> x * 2 \<and> x * 2 \<le> mx then
          [\<lparr>tr = t, tempo = Some (x * 2), originalTempo = Some x, tempoType = ''double-time''\<rparr>]
        else [])"
    using assms(2,3) by (rule filterTracksByTempo_single)
  then show "filterTracksByTempo [t] tempos (mn, mx) =
       (if mn \<le> x \<and> x \<le> mx then
          [\<lparr>tr = t, tempo = Some x, originalTempo = Some x, tempoType = ''original''\<rparr>]
        else if mn \<le> x / 2 \<and> x / 2 \<le> mx then
          [\<lparr>tr = t, tempo = Some (x / 2), originalTempo = Some x, tempoType = ''half-time''\<rparr>]
        else if mn \<le> x * 2 \<and> x * 2 \<le> mx then
          [\<lparr>tr = t, tempo = Some (x * 2), originalTempo = Some x, tempoType = ''double-time''\<rparr>]
        else [])" .
  have same: "r \<in> set (filterTracksByTempo tracks tempos (mn, mx)) \<and> tr r = t \<longleftrightarrow>
      r \<in> set (filterTracksByTempo [t] tempos (mn, mx))" for r
    using assms(1) by (auto simp: filterTracksByTempo_def)
  show "(\<exists>r \<in> set (filterTracksByTempo tracks tempos (mn, mx)). tr r = t) \<longleftrightarrow>
        (mn \<le> x \<and> x \<le> mx) \<or> (mn \<le> x / 2 \<and> x / 2 \<le> mx) \<or> (mn \<le> x * 2 \<and> x * 2 \<le> mx)"
  proof -
    have "(\<exists>r \<in> set (filterTracksByTempo tracks tempos (mn, mx)). tr r = t) \<longleftrightarrow>
          filterTracksByTempo [t] tempos (mn, mx) \<noteq> []"
    proof -
      have "(\<exists>r \<in> set (filterTracksByTempo tracks tempos (mn, mx)). tr r = t) \<longleftrightarrow>
            (\<exists>r. r \<in> set (filterTracksByTempo [t] tempos (mn, mx)))"
        using same by blast
      also have "\<dots> \<longleftrightarrow> filterTracksByTempo [t] tempos (mn, mx) \<noteq> []"
        by (cases "filterTracksByTempo [t] tempos (mn, mx)") auto
      finally show ?thesis .
    qed
    then show ?thesis
      by (simp add: single)
  qed
  show "\<forall>r \<in> set (filterTracksByTempo tracks tempos (mn, mx)). tr r = t \<longrightarrow>
        r = (if mn \<le> x \<and> x \<le> mx then
               \<lparr>tr = t, tempo = Some x, originalTempo = Some x, tempoType = ''original''\<rparr>
             else if mn \<le> x / 2 \<and> x / 2 \<le> mx then
               \<lparr>tr = t, tempo = Some (x / 2), originalTempo = Some x, tempoType = ''half-time''\<rparr>
             else
               \<lparr>tr = t, tempo = Some (x * 2), originalTempo = Some x, tempoType = ''double-time''\<rparr>)"
  proof (intro ballI impI)
    fix r assume "r \<in> set (filterTracksByTempo tracks tempos (mn, mx))" "tr r = t"
    then have "r \<in> set (filterTracksByTempo [t] tempos (mn, mx))"
      using same by blast
    then show "r = (if mn \<le> x \<and> x \<le> mx then
               \<lparr>tr = t, tempo = Some x, originalTempo = Some x, tempoType = ''original''\<rparr>
             else if mn \<le> x / 2 \<and> x / 2 \<le> mx then
               \<lparr>tr = t, tempo = Some (x / 2), originalTempo = Some x, tempoType = ''half-time''\<rparr>
             else
               \<lparr>tr = t, tempo = Some (x * 2), originalTempo = Some x, tempoType = ''double-time''\<rparr>)"
      by (simp add: single split: if_splits)
  qed
  show "snd (processTrackForSelection (cfg\<lparr>minTempo := mn, maxTempo := mx\<rparr>) t (Some x) s) =
       (if mn \<le> x \<and> x \<le> mx then
          s\<lparr>selectedTracks := selectedTracks s @
               [\<lparr>tr = t, tempo = Some x, originalTempo = Some x, tempoType = ''original''\<rparr>],
            currentDurationMs := currentDurationMs s + duration_or_0 t\<rparr>
        else if mn \<le> x / 2 \<and> x / 2 \<le> mx then
          s\<lparr>selectedTracks := selectedTracks s @
               [\<lparr>tr = t, tempo = Some (x / 2), originalTempo = Some x, tempoType = ''half-time''\<rparr>],
            currentDurationMs := currentDurationMs s + duration_or_0 t\<rparr>
        else if mn \<le> x * 2 \<and> x * 2 \<le> mx then
          s\<lparr>selectedTracks := selectedTracks s @
               [\<lparr>tr = t, tempo = Some (x * 2), originalTempo = Some x, tempoType = ''double-time''\<rparr>],
            currentDurationMs := currentDurationMs s + duration_or_0 t\<rparr>
        else s)"
    using assms(4) by (simp add: processTrackForSelection_accept)
qed

text \<open>
  Scenario A: range \<open>[150, 170]\<close> and raw tempo 78 give the double-time variant with display
  tempo 156 and original tempo 78, in both functions.
\<close>

theorem tempo_matcher_scenario_A:
  "filterTracksByTempo [track78] [''t78'' \<mapsto> 78] (150, 170) =
     [\<lparr>tr = track78, tempo = Some 156, originalTempo = Some 78, tempoType = ''double-time''\<rparr>] \<and>
   snd (processTrackForSelection \<lparr>targetDurationMs = 1800000, minTempo = 150, maxTempo = 170\<rparr>
          track78 (Some 78) scan_start) =
     \<lparr>currentDurationMs = 200000,
      selectedTracks =
        [\<lparr>tr = track78, tempo = Some 156, originalTempo = Some 78, tempoType = ''double-time''\<rparr>]\<rparr>"
proof -
  have h1: "track78 \<in> set [track78]" by simp
  have h2: "[''t78'' \<mapsto> (78::rat)] (track_id track78) = Some 78" by (simp add: track78_def)
  have h3: "(78::rat) \<noteq> 0" by simp
  have h4: "currentDurationMs scan_start <
      targetDurationMs \<lparr>targetDurationMs = 1800000, minTempo = 150, maxTempo = 170\<rparr>"
    by (simp add: scan_start_def)
  note th = tempo_matcher_accepts_iff_candidate_in_range
      [where t = track78 and tracks = "[track78]" and tempos = "[''t78'' \<mapsto> 78]" and x = 78
         and s = scan_start
         and cfg = "\<lparr>targetDurationMs = 1800000, minTempo = 150, maxTempo = 170\<rparr>"
         and mn = 150 and mx = 170, OF h1 h2 h3 h4]
  from th [THEN conjunct2, THEN conjunct2, THEN conjunct1]
  have "filterTracksByTempo [track78] [''t78'' \<mapsto> 78] (150, 170) =
     [\<lparr>tr = track78, tempo = Some 156, originalTempo = Some 78, tempoType = ''double-time''\<rparr>]"
    by simp
  moreover from th [THEN conjunct2, THEN conjunct2, THEN conjunct2]
  have "snd (processTrackForSelection \<lparr>targetDurationMs = 1800000, minTempo = 150, maxTempo = 170\<rparr>
          track78 (Some 78) scan_start) =
     \<lparr>currentDurationMs = 200000,
      selectedTracks =
        [\<lparr>tr = track78, tempo = Some 156, originalTempo = Some 78, tempoType = ''double-time''\<rparr>]\<rparr>"
    by (simp add: scan_start_def track78_def duration_or_0_def)
  ultimately show ?thesis by (rule conjI)
qed

lemma candidates_in_range_ge1:
  "1 \<le> candidates_in_range x mn mx \<longleftrightarrow>
     (mn \<le> x \<and> x \<le> mx) \<or> (mn \<le> x / 2 \<and> x / 2 \<le> mx) \<or> (mn \<le> x * 2 \<and> x * 2 \<le> mx)"
  by (auto simp: candidates_in_range_def)

lemma candidates_in_range_narrow:
  assumes "mx < 2 * mn"
  shows "candidates_in_range x mn mx \<le> 1"
  using assms by (auto simp: candidates_in_range_def)

lemma filterTracksByTempo_member:
  assumes "r \<in> set (filterTracksByTempo tracks tempos (mn, mx))" and "originalTempo r = Some x"
  shows "(mn \<le> x \<and> x \<le> mx) \<or> (mn \<le> x / 2 \<and> x / 2 \<le> mx) \<or> (mn \<le> x * 2 \<and> x * 2 \<le> mx)"
proof -
  from assms(1) obtain t where t: "filterTracksByTempo_keep tempos (mn, mx) t"
    and r: "r = filterTracksByTempo_map tempos (mn, mx) t"
    by (auto simp: filterTracksByTempo_def)
  from t obtain y where y: "tempos (track_id t) = Some y"
    and c: "(mn \<le> y \<and> y \<le> mx) \<or> (mn \<le> y / 2 \<and> y / 2 \<le> mx) \<or> (mn \<le> y * 2 \<and> y * 2 \<le> mx)"
    by (auto simp: filterTracksByTempo_keep_def Let_def split: option.splits if_splits)
  from r y have "originalTempo r = Some y"
    by (simp add: filterTracksByTempo_map_def Let_def)
  with assms(2) have "x = y" by simp
  with c show ?thesis by simp
qed

lemma processTrackForSelection_changed:
  assumes "snd (processTrackForSelection cfg t (Some x) s) \<noteq> s"
  shows "(minTempo cfg \<le> x \<and> x \<le> maxTempo cfg) \<or> (minTempo cfg \<le> x / 2 \<and> x / 2 \<le> maxTempo cfg)
     \<or> (minTempo cfg \<le> x * 2 \<and> x * 2 \<le> maxTempo cfg)"
  using assms by (auto simp: processTrackForSelection_def Let_def split: if_splits)

text \<open>
  Claim C10, as the code has it. For every match produced (an entry of the output of
  \<^verbatim>\<open>filterTracksByTempo\<close> with original tempo \<open>x\<close>, or a call of
  \<^verbatim>\<open>processTrackForSelection\<close> that changes the session), at least one of the candidates
  \<open>x\<close>, \<open>x/2\<close>, \<open>x*2\<close> lies in \<open>[min, max]\<close>; exactly one does when \<open>max < 2 * min\<close>.
\<close>

theorem match_has_candidate_in_range:
  "(r \<in> set (filterTracksByTempo tracks tempos (mn, mx)) \<and> originalTempo r = Some x \<longrightarrow>
      1 \<le> candidates_in_range x mn mx \<and> (mx < 2 * mn \<longrightarrow> candidates_in_range x mn mx = 1)) \<and>
   (snd (processTrackForSelection cfg t (Some y) s) \<noteq> s \<longrightarrow>
      1 \<le> candidates_in_range y (minTempo cfg) (maxTempo cfg) \<and>
      (maxTempo cfg < 2 * minTempo cfg \<longrightarrow> candidates_in_range y (minTempo cfg) (maxTempo cfg) = 1))"
proof (intro conjI impI)
  assume a: "r \<in> set (filterTracksByTempo tracks tempos (mn, mx)) \<and> originalTempo r = Some x"
  then have "(mn \<le> x \<and> x \<le> mx) \<or> (mn \<le> x / 2 \<and> x / 2 \<le> mx) \<or> (mn \<le> x * 2 \<and> x * 2 \<le> mx)"
    using filterTracksByTempo_member by blast
  then show ge: "1 \<le> candidates_in_range x mn mx"
    by (simp only: candidates_in_range_ge1)
  assume "mx < 2 * mn"
  then have "candidates_in_range x mn mx \<le> 1"
    by (rule candidates_in_range_narrow)
  with ge show "candidates_in_range x mn mx = 1"
    by simp
next
  assume a: "snd (processTrackForSelection cfg t (Some y) s) \<noteq> s"
  then have "(minTempo cfg \<le> y \<and> y \<le> maxTempo cfg) \<or>
      (minTempo cfg \<le> y / 2 \<and> y / 2 \<le> maxTempo cfg) \<or>
      (minTempo cfg \<le> y * 2 \<and> y * 2 \<le> maxTempo cfg)"
    by (rule processTrackForSelection_changed)
  then show ge: "1 \<le> candidates_in_range y (minTempo cfg) (maxTempo cfg)"
    by (simp only: candidates_in_range_ge1)
  assume "maxTempo cfg < 2 * minTempo cfg"
  then have "candidates_in_range y (minTempo cfg) (maxTempo cfg) \<le> 1"
    by (rule candidates_in_range_narrow)
  with ge show "candidates_in_range y (minTempo cfg) (maxTempo cfg) = 1"
    by simp
qed

text \<open>The amended claim at Scenario A's input: one candidate (156) in \<open>[150, 170]\<close>.\<close>

theorem match_has_candidate_in_range_witness:
  "\<lparr>tr = track78, tempo = Some 156, originalTempo = Some 78, tempoType = ''double-time''\<rparr>
     \<in> set (filterTracksByTempo [track78] [''t78'' \<mapsto> 78] (150, 170)) \<and>
   candidates_in_range 78 150 170 = 1"
proof -
  let ?r = "\<lparr>tr = track78, tempo = Some 156, originalTempo = Some 78, tempoType = ''double-time''\<rparr>"
  have m: "[''t78'' \<mapsto> (78::rat)] (track_id track78) = Some 78"
    by (simp add: track78_def)
  have nz: "(78::rat) \<noteq> 0" by simp
  have "filterTracksByTempo [track78] [''t78'' \<mapsto> 78] (150, 170) = [?r]"
    using filterTracksByTempo_single
      [where t = track78 and tempos = "[''t78'' \<mapsto> 78]" and x = 78 and mn = 150 and mx = 170,
       OF m nz]
    by simp
  then have mem: "?r \<in> set (filterTracksByTempo [track78] [''t78'' \<mapsto> 78] (150, 170))"
    by simp
  have narrow: "(170::rat) < 2 * 150" by simp
  from match_has_candidate_in_range
    [where r = ?r and tracks = "[track78]" and tempos = "[''t78'' \<mapsto> 78]" and mn = 150
       and mx = 170 and x = 78]
  have "?r \<in> set (filterTracksByTempo [track78] [''t78'' \<mapsto> 78] (150, 170)) \<and>
        originalTempo ?r = Some 78 \<longrightarrow>
        1 \<le> candidates_in_range 78 150 170 \<and>
        ((170::rat) < 2 * 150 \<longrightarrow> candidates_in_range 78 150 170 = 1)"
    by (rule conjunct1)
  with mem narrow have c: "candidates_in_range 78 150 170 = 1"
    by simp
  from mem c show ?thesis by (rule conjI)
qed

text \<open>
  Claim C10 as stated fails: with the range \<open>[80, 160]\<close> (the slider allows it) and tempo 80
  the track is matched as "original" while two candidates, 80 and 160, lie in the range.
\<close>

theorem two_candidates_in_range:
  "filterTracksByTempo [track80] [''t80'' \<mapsto> 80] (80, 160) =
     [\<lparr>tr = track80, tempo = Some 80, originalTempo = Some 80, tempoType = ''original''\<rparr>] \<and>
   candidates_in_range 80 80 160 = 2"
proof
  have m: "[''t80'' \<mapsto> (80::rat)] (track_id track80) = Some 80"
    by (simp add: track80_def)
  have nz: "(80::rat) \<noteq> 0" by simp
  show "filterTracksByTempo [track80] [''t80'' \<mapsto> 80] (80, 160) =
     [\<lparr>tr = track80, tempo = Some 80, originalTempo = Some 80, tempoType = ''original''\<rparr>]"
    using filterTracksByTempo_single
      [where t = track80 and tempos = "[''t80'' \<mapsto> 80]" and x = 80 and mn = 80 and mx = 160,
       OF m nz]
    by simp
  show "candidates_in_range 80 80 160 = 2"
    by (simp add: candidates_in_range_def)
qed

section \<open>Accumulated duration\<close>

lemma duration_or_0_sourcePlaylist [simp]:
  "duration_or_0 (t\<lparr>sourcePlaylist := p\<rparr>) = duration_or_0 t"
  by (simp add: duration_or_0_def)

lemma processTrackForSelection_inv:
  assumes "currentDurationMs s = selection_duration s"
  shows "currentDurationMs (snd (processTrackForSelection cfg t bpm s)) =
         selection_duration (snd (processTrackForSelection cfg t bpm s))"
  using assms
  by (simp add: processTrackForSelection_def selection_duration_def Let_def split: option.splits)

lemma processTrackForSelection_mono:
  "currentDurationMs s \<le> currentDurationMs (snd (processTrackForSelection cfg t bpm s))"
  by (simp add: processTrackForSelection_def Let_def split: option.splits)

lemma savedTracksLoop_inv:
  "currentDurationMs s = selection_duration s \<Longrightarrow>
   currentDurationMs (savedTracksLoop cfg tempos ts s) = selection_duration (savedTracksLoop cfg tempos ts s)"
proof (induction ts arbitrary: s)
  case Nil
  then show ?case by simp
next
  case (Cons t ts)
  from Cons.prems show ?case
    by (auto simp: Let_def split: option.splits intro!: Cons.IH)
       (simp_all add: selection_duration_def)
qed

lemma savedTracksLoop_mono:
  "currentDurationMs s \<le> currentDurationMs (savedTracksLoop cfg tempos ts s)"
proof (induction ts arbitrary: s)
  case Nil
  then show ?case by simp
next
  case (Cons t ts)
  have step: "\<And>s'. currentDurationMs s \<le> currentDurationMs s' \<Longrightarrow>
      currentDurationMs s \<le> currentDurationMs (savedTracksLoop cfg tempos ts s')"
    using Cons.IH le_trans by blast
  show ?case
    by (auto simp: Let_def split: option.splits intro!: step)
qed

lemma sum_list_sort_key:
  fixes f :: "'a \<Rightarrow> nat" and k :: "'a \<Rightarrow> int"
  shows "sum_list (map f (sort_key k xs)) = sum_list (map f xs)"
proof -
  have "sum_list (map f (sort_key k xs)) = sum_mset (mset (map f (sort_key k xs)))"
    by (rule sum_mset_sum_list [symmetric])
  also have "\<dots> = sum_mset (mset (map f xs))"
    by simp
  also have "\<dots> = sum_list (map f xs)"
    by (rule sum_mset_sum_list)
  finally show ?thesis .
qed

lemma scan_step_inv:
  "currentDurationMs s = selection_duration s \<Longrightarrow>
   currentDurationMs (scan_step cfg s e) = selection_duration (scan_step cfg s e)"
proof (cases e)
  case (PrimaryEstimate t bpm)
  assume "currentDurationMs s = selection_duration s"
  then show ?thesis
    using PrimaryEstimate by (simp add: processTrackForSelection_inv)
next
  case SortByRecency
  assume "currentDurationMs s = selection_duration s"
  then show ?thesis
    using SortByRecency by (simp add: selection_duration_def sum_list_sort_key)
next
  case (SavedPhase ts tempos)
  assume "currentDurationMs s = selection_duration s"
  then show ?thesis
    using SavedPhase by (simp add: savedTracksLoop_inv)
qed

lemma scan_step_mono: "currentDurationMs s \<le> currentDurationMs (scan_step cfg s e)"
  by (cases e) (simp_all add: processTrackForSelection_mono savedTracksLoop_mono)

lemma foldl_scan_step_inv:
  "currentDurationMs s = selection_duration s \<Longrightarrow>
   currentDurationMs (foldl (scan_step cfg) s evs) = selection_duration (foldl (scan_step cfg) s evs)"
  by (induction evs arbitrary: s) (simp_all add: scan_step_inv)

lemma foldl_scan_step_mono:
  "currentDurationMs s \<le> currentDurationMs (foldl (scan_step cfg) s evs)"
proof (induction evs arbitrary: s)
  case Nil
  show ?case by simp
next
  case (Cons e evs)
  have "currentDurationMs s \<le> currentDurationMs (scan_step cfg s e)"
    by (rule scan_step_mono)
  also have "\<dots> \<le> currentDurationMs (foldl (scan_step cfg) (scan_step cfg s e) evs)"
    by (rule Cons.IH)
  finally show ?case by simp
qed

text \<open>
  Claim C9. After any sequence of events of a scan (estimates settling in the playlist
  phase, the sort of the selection, the saved-tracks loop), \<^verbatim>\<open>currentDurationMs\<close> equals
  the sum of \<^verbatim>\<open>duration_ms || 0\<close> over \<^verbatim>\<open>selectedTracks\<close>, and it never decreases as further
  events follow.
\<close>

theorem accumulated_duration_invariant:
  "currentDurationMs (run_scan cfg evs) = selection_duration (run_scan cfg evs) \<and>
   currentDurationMs (run_scan cfg evs) \<le> currentDurationMs (run_scan cfg (evs @ later))"
proof
  show "currentDurationMs (run_scan cfg evs) = selection_duration (run_scan cfg evs)"
    unfolding run_scan_def
    by (rule foldl_scan_step_inv) (simp add: scan_start_def selection_duration_def)
  show "currentDurationMs (run_scan cfg evs) \<le> currentDurationMs (run_scan cfg (evs @ later))"
    unfolding run_scan_def by (simp add: foldl_scan_step_mono)
qed

text \<open>
  A scan that accepts one track in the playlist phase and one in the saved-tracks phase:
  200000 ms, then 380000 ms.
\<close>

theorem accumulated_duration_example:
  "currentDurationMs (run_scan \<lparr>targetDurationMs = 1800000, minTempo = 150, maxTempo = 170\<rparr>
      [PrimaryEstimate track78 (Some 78), SortByRecency]) = 200000 \<and>
   selection_duration (run_scan \<lparr>targetDurationMs = 1800000, minTempo = 150, maxTempo = 170\<rparr>
      ([PrimaryEstimate track78 (Some 78), SortByRecency] @
       [SavedPhase [track80] [''t80'' \<mapsto> 160]])) = 380000"
proof -
  let ?cfg = "\<lparr>targetDurationMs = 1800000, minTempo = 150, maxTempo = 170\<rparr>"
  let ?evs = "[PrimaryEstimate track78 (Some 78), SortByRecency]"
  let ?later = "[SavedPhase [track80] [''t80'' \<mapsto> 160]]"
  note inv = accumulated_duration_invariant [of ?cfg "?evs @ ?later" "[]"]
  have 1: "currentDurationMs (run_scan ?cfg ?evs) = 200000"
    by (simp add: run_scan_def scan_start_def processTrackForSelection_def track78_def
          duration_or_0_def)
  have 2: "currentDurationMs (run_scan ?cfg (?evs @ ?later)) = 380000"
    by (simp add: run_scan_def scan_start_def processTrackForSelection_def track78_def
          track80_def duration_or_0_def)
  from inv 2 have "selection_duration (run_scan ?cfg (?evs @ ?later)) = 380000"
    by simp
  with 1 show ?thesis by simp
qed

section \<open>Tempo oracle\<close>

subsection \<open>The rounding of parseFloat\<close>

text \<open>
  \<open>floor_log2\<close> is the binary exponent, \<open>round_half_even\<close> is within one half of its
  argument and even on a tie, and a finite \<open>to_double x\<close> is a multiple of the spacing of
  the doubles at \<open>x\<close>, at most half a spacing away from \<open>x\<close>.
\<close>

lemma pow2_pos: "0 < pow2 e"
  by (simp add: pow2_def)

lemma round_half_even_close: "\<bar>of_int (round_half_even y) - y\<bar> \<le> 1 / 2"
proof -
  have "of_int \<lfloor>y\<rfloor> \<le> y" and "y < of_int \<lfloor>y\<rfloor> + 1"
    by linarith+
  then show ?thesis
    by (auto simp: round_half_even_def Let_def)
qed

lemma round_half_even_tie: "y - of_int \<lfloor>y\<rfloor> = 1 / 2 \<Longrightarrow> even (round_half_even y)"
  by (simp add: round_half_even_def Let_def)

lemma floor_log2_bounds:
  assumes "0 < x"
  shows "pow2 (floor_log2 x) \<le> x \<and> x < pow2 (floor_log2 x + 1)"
proof (cases "1 \<le> x")
  case True
  define m where "m = \<lfloor>x\<rfloor>"
  define b where "b = bitlen m"
  have m1: "1 \<le> m"
    using True by (simp add: m_def)
  then have mpos: "0 < m" by simp
  from bitlen_bounds [OF mpos] have lo: "2 ^ nat (b - 1) \<le> m" and hi: "m < 2 ^ nat b"
    by (simp_all add: b_def)
  have b1: "1 \<le> b"
  proof (rule ccontr)
    assume "\<not> 1 \<le> b"
    then have "nat b = 0" by simp
    with hi mpos show False by simp
  qed
  have fl: "floor_log2 x = b - 1"
    using True by (simp add: floor_log2_def b_def m_def)
  have mx: "of_int m \<le> x" and xm: "x < of_int (m + 1)"
    unfolding m_def by linarith+
  have "(2::rat) ^ nat (b - 1) \<le> of_int m"
    using lo by (metis of_int_le_iff of_int_numeral of_int_power)
  with mx have "2 ^ nat (b - 1) \<le> x"
    by linarith
  then have 1: "pow2 (b - 1) \<le> x"
    using b1 by (simp add: pow2_def)
  from hi have "m + 1 \<le> 2 ^ nat b" by simp
  then have "(of_int (m + 1) :: rat) \<le> 2 ^ nat b"
    by (metis of_int_le_iff of_int_numeral of_int_power)
  with xm have "x < 2 ^ nat b"
    by linarith
  then have 2: "x < pow2 b"
    using b1 by (simp add: pow2_def)
  from 1 2 show ?thesis
    by (simp add: fl)
next
  case False
  then have x1: "x < 1" by simp
  define y where "y = 1 / x"
  have y1: "1 < y"
    using assms x1 by (simp add: y_def)
  define m where "m = \<lceil>y\<rceil> - 1"
  define b where "b = bitlen m"
  have my: "of_int m < y" and ym: "y \<le> of_int (m + 1)"
    unfolding m_def by linarith+
  have m1: "1 \<le> m"
    using y1 unfolding m_def by linarith
  then have mpos: "0 < m" by simp
  from bitlen_bounds [OF mpos] have lo: "2 ^ nat (b - 1) \<le> m" and hi: "m < 2 ^ nat b"
    by (simp_all add: b_def)
  have b1: "1 \<le> b"
  proof (rule ccontr)
    assume "\<not> 1 \<le> b"
    then have "nat b = 0" by simp
    with hi mpos show False by simp
  qed
  have fl: "floor_log2 x = - b"
    using False by (simp add: floor_log2_def b_def m_def y_def)
  from hi have "m + 1 \<le> 2 ^ nat b" by simp
  then have "(of_int (m + 1) :: rat) \<le> 2 ^ nat b"
    by (metis of_int_le_iff of_int_numeral of_int_power)
  with ym have "y \<le> 2 ^ nat b" by linarith
  then have "1 / 2 ^ nat b \<le> x"
    using assms by (simp add: y_def field_simps)
  then have 1: "pow2 (- b) \<le> x"
    using b1 by (simp add: pow2_def)
  have "(2::rat) ^ nat (b - 1) \<le> of_int m"
    using lo by (metis of_int_le_iff of_int_numeral of_int_power)
  with my have "2 ^ nat (b - 1) < y" by linarith
  then have lt: "x < 1 / 2 ^ nat (b - 1)"
    using assms by (simp add: y_def field_simps)
  have 2: "x < pow2 (- b + 1)"
  proof (cases "b = 1")
    case True
    then show ?thesis using x1 by (simp add: pow2_def)
  next
    case False
    with b1 have "\<not> 0 \<le> - b + 1" and "nat (- (- b + 1)) = nat (b - 1)" by simp_all
    then show ?thesis using lt by (simp add: pow2_def)
  qed
  from 1 2 show ?thesis
    by (simp add: fl)
qed

lemma to_double_nearest:
  assumes "0 < x" and "to_double x = Some v"
  shows "\<exists>m. v = of_int m * pow2 (max (floor_log2 x) (- 1022) - 52) \<and>
             \<bar>v - x\<bar> \<le> pow2 (max (floor_log2 x) (- 1022) - 52) / 2"
proof -
  define q where "q = pow2 (max (floor_log2 x) (- 1022) - 52)"
  have q: "0 < q" by (simp add: q_def pow2_pos)
  from assms have v: "v = of_int (round_half_even (x / q)) * q"
    by (simp add: to_double_def Let_def q_def split: if_splits)
  have "\<bar>of_int (round_half_even (x / q)) - x / q\<bar> \<le> 1 / 2"
    by (rule round_half_even_close)
  then have "\<bar>of_int (round_half_even (x / q)) - x / q\<bar> * q \<le> 1 / 2 * q"
    using q by (intro mult_right_mono) simp_all
  moreover have "(of_int (round_half_even (x / q)) - x / q) * q = v - x"
    using q by (simp add: v left_diff_distrib)
  then have "\<bar>v - x\<bar> = \<bar>of_int (round_half_even (x / q)) - x / q\<bar> * \<bar>q\<bar>"
    by (metis abs_mult)
  then have "\<bar>of_int (round_half_even (x / q)) - x / q\<bar> * q = \<bar>v - x\<bar>"
    using q by simp
  ultimately have "\<bar>v - x\<bar> \<le> q / 2" by simp
  with v show ?thesis
    unfolding q_def by blast
qed

subsection \<open>What a response text denotes\<close>

lemma digit_cases: "d < 10 \<Longrightarrow> d = 0 \<or> d = 1 \<or> d = 2 \<or> d = 3 \<or> d = 4 \<or> d = 5 \<or> d = 6 \<or> d = 7 \<or> d = 8 \<or> d = (9::nat)"
  by arith

lemma digit_char_props:
  assumes "d < 10"
  shows "is_digit (digit_char d)" and "of_char (digit_char d) - 48 = d"
    and "\<not> is_space (digit_char d)" and "digit_char d \<noteq> CHR ''.''"
  using digit_cases [OF assms]
  by (auto simp: digit_char_def is_digit_def is_space_def)

lemma digits_of_nonempty: "digits_of n \<noteq> []"
  by (subst digits_of.simps) simp

lemma digits_of_all_digits: "\<forall>c \<in> set (digits_of n). is_digit c"
proof (induction n rule: digits_of.induct)
  case (1 n)
  show ?case
  proof (cases "n < 10")
    case True
    then show ?thesis
      by (subst digits_of.simps) (simp add: digit_char_props)
  next
    case False
    then have "\<forall>c \<in> set (digits_of (n div 10)). is_digit c"
      by (rule "1.IH")
    moreover have "is_digit (digit_char (n mod 10))"
      by (simp add: digit_char_props)
    ultimately show ?thesis
      using False by (subst digits_of.simps) simp
  qed
qed

lemma digits_val_snoc: "digits_val (ds @ [c]) = 10 * digits_val ds + int (of_char c - 48)"
  by (simp add: digits_val_def)

lemma digits_val_digits_of: "digits_val (digits_of n) = int n"
proof (induction n rule: digits_of.induct)
  case (1 n)
  show ?case
  proof (cases "n < 10")
    case True
    then show ?thesis
      by (subst digits_of.simps) (simp add: digits_val_def digit_char_props)
  next
    case False
    then have "digits_val (digits_of (n div 10)) = int (n div 10)"
      by (rule "1.IH")
    then have "digits_val (digits_of (n div 10) @ [digit_char (n mod 10)]) = 10 * int (n div 10) + int (n mod 10)"
      by (simp add: digits_val_snoc digit_char_props)
    also have "\<dots> = int (10 * (n div 10) + n mod 10)"
      by (simp only: of_nat_add of_nat_mult of_nat_numeral)
    also have "\<dots> = int n"
      by simp
    finally show ?thesis
      using False by (subst digits_of.simps) simp
  qed
qed


lemma trim_number:
  assumes ds: "ds \<noteq> []" "\<forall>c \<in> set ds. \<not> is_space c"
  shows "\<exists>pre' post'. trim (pre @ ds @ post) = pre' @ ds @ post' \<and>
      set pre' \<subseteq> set pre \<and> (post' = [] \<or> (post \<noteq> [] \<and> hd post' = hd post))"
proof -
  from ds obtain d ds' where d: "ds = d # ds'" "\<not> is_space d"
    by (cases ds) auto
  from ds obtain ds'' e where e: "ds = ds'' @ [e]" "\<not> is_space e"
    by (cases ds rule: rev_cases) auto
  define pre' where "pre' = dropWhile is_space pre"
  define post' where "post' = rev (dropWhile is_space (rev post))"
  have 1: "dropWhile is_space (pre @ ds @ post) = pre' @ ds @ post"
    using d by (simp add: dropWhile_append pre'_def)
  have "dropWhile is_space (rev (pre' @ ds @ post)) = dropWhile is_space (rev post) @ rev ds @ rev pre'"
    using e by (simp add: dropWhile_append)
  then have 2: "trim (pre @ ds @ post) = pre' @ ds @ post'"
    by (simp add: trim_def 1 post'_def)
  have 3: "set pre' \<subseteq> set pre"
    unfolding pre'_def by (auto dest: set_dropWhileD)
  have "rev post = takeWhile is_space (rev post) @ dropWhile is_space (rev post)"
    by simp
  then have "post = post' @ rev (takeWhile is_space (rev post))"
    unfolding post'_def by (metis rev_append rev_rev_ident)
  then have 4: "post' = [] \<or> (post \<noteq> [] \<and> hd post' = hd post)"
    by (metis hd_append2 append_is_Nil_conv)
  from 2 3 4 show ?thesis by blast
qed

lemma decimalMatch_alt:
  "decimalMatch bpmText =
     (let r = dropWhile (\<lambda>c. \<not> is_digit c) bpmText
      in if r = [] then None
         else (let ip = takeWhile is_digit r; rest = dropWhile is_digit r
               in if rest = [] then Some (ip, [])
                  else if hd rest = CHR ''.'' then Some (ip, takeWhile is_digit (tl rest))
                  else Some (ip, [])))"
proof (cases "dropWhile (\<lambda>c. \<not> is_digit c) bpmText")
  case Nil
  show ?thesis
    unfolding decimalMatch_def Let_def Nil by simp
next
  case outer: (Cons d ds)
  show ?thesis
  proof (cases "dropWhile is_digit (d # ds)")
    case Nil
    show ?thesis
      unfolding decimalMatch_def Let_def outer list.case Nil by simp
  next
    case (Cons c r)
    show ?thesis
      unfolding decimalMatch_def Let_def outer list.case Cons by simp
  qed
qed

lemma takeWhile_stop: "post = [] \<or> \<not> P (hd post) \<Longrightarrow> takeWhile P post = []"
  by (cases post) auto

lemma dropWhile_stop: "post = [] \<or> \<not> P (hd post) \<Longrightarrow> dropWhile P post = post"
  by (cases post) auto

lemma decimalMatch_integer:
  assumes pre: "\<forall>c \<in> set pre. \<not> is_digit c"
    and ds: "ds \<noteq> []" "\<forall>c \<in> set ds. is_digit c"
    and post: "post = [] \<or> (\<not> is_digit (hd post) \<and> hd post \<noteq> CHR ''.'')"
  shows "decimalMatch (pre @ ds @ post) = Some (ds, [])"
proof -
  have stop: "ds @ post = [] \<or> \<not> (\<lambda>c. \<not> is_digit c) (hd (ds @ post))"
    using ds by (cases ds) auto
  have "dropWhile (\<lambda>c. \<not> is_digit c) (pre @ ds @ post) = dropWhile (\<lambda>c. \<not> is_digit c) (ds @ post)"
    using pre by (intro dropWhile_append2) simp
  also have "\<dots> = ds @ post"
    using stop by (rule dropWhile_stop)
  finally have 1: "dropWhile (\<lambda>c. \<not> is_digit c) (pre @ ds @ post) = ds @ post" .
  from post have post': "post = [] \<or> \<not> is_digit (hd post)"
    by blast
  have "takeWhile is_digit (ds @ post) = ds @ takeWhile is_digit post"
    using ds by (intro takeWhile_append2) simp
  moreover have "takeWhile is_digit post = []"
    using post' by (rule takeWhile_stop)
  ultimately have 2: "takeWhile is_digit (ds @ post) = ds"
    by simp
  have "dropWhile is_digit (ds @ post) = dropWhile is_digit post"
    using ds by (intro dropWhile_append2) simp
  moreover have "dropWhile is_digit post = post"
    using post' by (rule dropWhile_stop)
  ultimately have 3: "dropWhile is_digit (ds @ post) = post"
    by simp
  have "decimalMatch (pre @ ds @ post) =
      (if post = [] then Some (ds, [])
       else if hd post = CHR ''.'' then Some (ds, takeWhile is_digit (tl post))
       else Some (ds, []))"
    unfolding decimalMatch_alt Let_def 1 2 3 using ds(1) by simp
  then show ?thesis
    using post by auto
qed

lemma decimalMatch_fraction:
  assumes pre: "\<forall>c \<in> set pre. \<not> is_digit c"
    and ds: "ds \<noteq> []" "\<forall>c \<in> set ds. is_digit c"
    and fp: "\<forall>c \<in> set fp. is_digit c"
    and post: "post = [] \<or> \<not> is_digit (hd post)"
  shows "decimalMatch (pre @ ds @ CHR ''.'' # fp @ post) = Some (ds, fp)"
proof -
  let ?rest = "CHR ''.'' # fp @ post"
  have nd: "\<not> is_digit CHR ''.''"
    by (simp add: is_digit_def)
  have stop: "ds @ ?rest = [] \<or> \<not> (\<lambda>c. \<not> is_digit c) (hd (ds @ ?rest))"
    using ds by (cases ds) auto
  have "dropWhile (\<lambda>c. \<not> is_digit c) (pre @ ds @ ?rest) = dropWhile (\<lambda>c. \<not> is_digit c) (ds @ ?rest)"
    using pre by (intro dropWhile_append2) simp
  also have "\<dots> = ds @ ?rest"
    using stop by (rule dropWhile_stop)
  finally have 1: "dropWhile (\<lambda>c. \<not> is_digit c) (pre @ ds @ ?rest) = ds @ ?rest" .
  have "takeWhile is_digit (ds @ ?rest) = ds @ takeWhile is_digit ?rest"
    using ds by (intro takeWhile_append2) simp
  then have 2: "takeWhile is_digit (ds @ ?rest) = ds"
    using nd by simp
  have "dropWhile is_digit (ds @ ?rest) = dropWhile is_digit ?rest"
    using ds by (intro dropWhile_append2) simp
  then have 3: "dropWhile is_digit (ds @ ?rest) = ?rest"
    using nd by simp
  have "takeWhile is_digit (fp @ post) = fp @ takeWhile is_digit post"
    using fp by (intro takeWhile_append2) simp
  moreover have "takeWhile is_digit post = []"
    using post by (rule takeWhile_stop)
  ultimately have 4: "takeWhile is_digit (fp @ post) = fp"
    by simp
  show ?thesis
    unfolding decimalMatch_alt Let_def 1 2 3 using ds(1) 4 by simp
qed


lemma digits_val_append_aux:
  "foldl (\<lambda>a c. 10 * a + int (of_char c - 48)) a cs = a * 10 ^ length cs + digits_val cs"
proof (induction cs arbitrary: a)
  case Nil
  show ?case by (simp add: digits_val_def)
next
  case (Cons c cs)
  have "foldl (\<lambda>a c. 10 * a + int (of_char c - 48)) a (c # cs) =
        (10 * a + int (of_char c - 48)) * 10 ^ length cs + digits_val cs"
    by (simp add: Cons.IH)
  moreover have "digits_val (c # cs) = int (of_char c - 48) * 10 ^ length cs + digits_val cs"
    by (simp add: digits_val_def Cons.IH [of "int (of_char c - 48)"])
  ultimately show ?case
    by (simp add: algebra_simps)
qed

lemma digits_val_Cons: "digits_val (c # cs) = int (of_char c - 48) * 10 ^ length cs + digits_val cs"
  using digits_val_append_aux [of "int (of_char c - 48)" cs] by (simp add: digits_val_def)

lemma fraction_value_digits_val:
  "(of_int (digits_val fp) :: rat) / 10 ^ length fp = fraction_value fp"
proof (induction fp)
  case Nil
  show ?case by (simp add: digits_val_def)
next
  case (Cons c cs)
  have "(of_int (digits_val (c # cs)) :: rat) / 10 ^ length (c # cs) =
        (of_nat (of_char c - 48) * 10 ^ length cs + of_int (digits_val cs)) / (10 * 10 ^ length cs)"
    by (simp add: digits_val_Cons)
  also have "\<dots> = (of_nat (of_char c - 48) + of_int (digits_val cs) / 10 ^ length cs) / 10"
    by (simp add: field_simps)
  finally show ?case
    by (simp add: Cons.IH)
qed

lemma round_half_even_of_int: "round_half_even (of_int m) = m"
  by (simp add: round_half_even_def)

lemma to_double_of_nat:
  assumes "0 < n" and "n < 2 ^ 53"
  shows "to_double (of_nat n) = Some (of_nat n)"
proof -
  define b where "b = bitlen (int n)"
  have pos: "0 < int n"
    using assms by simp
  from bitlen_bounds [OF pos] have lo: "2 ^ nat (b - 1) \<le> int n" and hi: "int n < 2 ^ nat b"
    by (simp_all add: b_def)
  have b1: "1 \<le> b"
  proof (rule ccontr)
    assume "\<not> 1 \<le> b"
    then have "nat b = 0" by simp
    with hi pos show False by simp
  qed
  have "(2::int) ^ nat (b - 1) < 2 ^ 53"
  proof -
    have "int n < int (2 ^ 53)"
      using assms(2) by (simp only: of_nat_less_iff)
    then have "int n < 2 ^ 53"
      by simp
    with lo show ?thesis
      by linarith
  qed
  then have "nat (b - 1) < 53"
    by (rule power_less_imp_less_exp [rotated]) simp
  then have b53: "b \<le> 53"
    by simp
  define k where "k = nat (53 - b)"
  have one: "(1::rat) \<le> of_nat n"
    using assms by simp
  have fl: "floor_log2 (of_nat n) = b - 1"
    using one by (simp add: floor_log2_def b_def)
  have q: "pow2 (b - 1 - 52) = 1 / 2 ^ k"
  proof (cases "b = 53")
    case True
    then show ?thesis by (simp add: pow2_def k_def)
  next
    case False
    with b53 have "b < 53" by simp
    then have "\<not> 0 \<le> b - 1 - 52" and "nat (- (b - 1 - 52)) = k"
      by (simp_all add: k_def)
    then show ?thesis by (simp add: pow2_def)
  qed
  have xq: "(of_nat n :: rat) / (1 / 2 ^ k) = of_int (int n * 2 ^ k)"
    by simp
  have v: "of_int (round_half_even ((of_nat n :: rat) / (1 / 2 ^ k))) * (1 / 2 ^ k) = (of_nat n :: rat)"
    unfolding xq round_half_even_of_int by simp
  have mx: "max (b - 1) (- 1022) = b - 1"
    using b1 by simp
  have nz: "(of_nat n :: rat) \<noteq> 0"
    using assms by simp
  have small: "\<not> 1024 \<le> b - 1"
    using b53 by simp
  show ?thesis
  proof -
    have e: "max (floor_log2 (of_nat n :: rat)) (- 1022) = b - 1"
      by (simp only: fl mx)
    have "to_double (of_nat n) =
        (if 1024 \<le> floor_log2 (of_int (round_half_even (of_nat n / pow2 (b - 1 - 52))) * pow2 (b - 1 - 52))
         then None
         else Some (of_int (round_half_even (of_nat n / pow2 (b - 1 - 52))) * pow2 (b - 1 - 52)))"
      using nz by (simp only: to_double_def Let_def e if_False)
    also have "\<dots> = (if 1024 \<le> floor_log2 (of_nat n :: rat) then None else Some (of_nat n))"
      by (simp only: q v)
    also have "\<dots> = Some (of_nat n)"
      using small by (simp only: fl if_False)
    finally show ?thesis .
  qed
qed

lemma digits_val_Nil: "digits_val [] = 0"
  by (simp add: digits_val_def)

lemma digit_not_space: "is_digit c \<Longrightarrow> \<not> is_space c"
  by (auto simp: is_digit_def is_space_def)

lemma extractBPMData_integer_text:
  assumes pre: "no_digit pre" and post: "ends_number post"
  shows "extractBPMData (ResponseText (pre @ digits_of n @ post)) =
           Inr (trim (pre @ digits_of n @ post), to_double (of_nat n))"
proof -
  let ?ds = "digits_of n"
  have ds: "?ds \<noteq> []" "\<forall>c \<in> set ?ds. is_digit c"
    by (simp_all add: digits_of_nonempty digits_of_all_digits)
  then have "\<forall>c \<in> set ?ds. \<not> is_space c"
    by (simp add: digit_not_space)
  with ds(1) obtain pre' post' where t: "trim (pre @ ?ds @ post) = pre' @ ?ds @ post'"
    and p1: "set pre' \<subseteq> set pre"
    and p2: "post' = [] \<or> (post \<noteq> [] \<and> hd post' = hd post)"
    using trim_number [of ?ds pre post] by blast
  from pre have "\<forall>c \<in> set pre. \<not> is_digit c"
    by (simp add: no_digit_def filter_empty_conv)
  with p1 have pre': "\<forall>c \<in> set pre'. \<not> is_digit c"
    by blast
  from post p2 have post': "post' = [] \<or> (\<not> is_digit (hd post') \<and> hd post' \<noteq> CHR ''.'')"
    by (cases post) (auto simp: ends_number_def)
  have m: "decimalMatch (pre' @ ?ds @ post') = Some (?ds, [])"
    using pre' ds post' by (rule decimalMatch_integer)
  have ne: "pre' @ ?ds @ post' \<noteq> []"
    using ds(1) by simp
  have "parsed_bpm (pre' @ ?ds @ post') = to_double (of_nat n)"
    by (simp add: parsed_bpm_def m digits_val_digits_of digits_val_Nil)
  then show ?thesis
    using ne by (simp add: extractBPMData_def Let_def t)
qed

lemma extractBPMData_decimal_text:
  assumes pre: "no_digit pre" and fp: "all_digits fp" and post: "ends_fraction post"
  shows "extractBPMData (ResponseText (pre @ digits_of n @ CHR ''.'' # fp @ post)) =
           Inr (trim (pre @ digits_of n @ CHR ''.'' # fp @ post),
                to_double (of_nat n + fraction_value fp))"
proof -
  let ?ds = "digits_of n"
  let ?mid = "?ds @ CHR ''.'' # fp"
  have ds: "?ds \<noteq> []" "\<forall>c \<in> set ?ds. is_digit c"
    by (simp_all add: digits_of_nonempty digits_of_all_digits)
  have fpd: "\<forall>c \<in> set fp. is_digit c"
    using fp by (metis all_digits_def filter_id_conv)
  have dot: "\<not> is_space CHR ''.''"
    by (simp add: is_space_def)
  have "\<forall>c \<in> set ?mid. \<not> is_space c"
    using ds(2) fpd dot by (auto simp: digit_not_space)
  moreover have "?mid \<noteq> []"
    by simp
  ultimately obtain pre' post' where t0: "trim (pre @ ?mid @ post) = pre' @ ?mid @ post'"
    and p1: "set pre' \<subseteq> set pre"
    and p2: "post' = [] \<or> (post \<noteq> [] \<and> hd post' = hd post)"
    using trim_number [of ?mid pre post] by blast
  from t0 have t: "trim (pre @ ?ds @ CHR ''.'' # fp @ post) = pre' @ ?ds @ CHR ''.'' # fp @ post'"
    by simp
  from pre have "\<forall>c \<in> set pre. \<not> is_digit c"
    by (simp add: no_digit_def filter_empty_conv)
  with p1 have pre': "\<forall>c \<in> set pre'. \<not> is_digit c"
    by blast
  from post p2 have post': "post' = [] \<or> \<not> is_digit (hd post')"
    by (cases post) (auto simp: ends_fraction_def)
  have m: "decimalMatch (pre' @ ?ds @ CHR ''.'' # fp @ post') = Some (?ds, fp)"
    using pre' ds fpd post' by (rule decimalMatch_fraction)
  have ne: "pre' @ ?ds @ CHR ''.'' # fp @ post' \<noteq> []"
    using ds(1) by simp
  have "parsed_bpm (pre' @ ?ds @ CHR ''.'' # fp @ post') = to_double (of_nat n + fraction_value fp)"
    by (simp add: parsed_bpm_def m digits_val_digits_of fraction_value_digits_val)
  then show ?thesis
    using ne by (simp add: extractBPMData_def Let_def t)
qed

lemma tier_yield_extract:
  "extractBPMData result = Inr (reply, bpm) \<Longrightarrow> tier_yield (Resolves result) = within_bounds bpm"
  by (simp add: tier_yield_def within_bounds_def split: option.splits)

lemma tier_yield_integer_text:
  assumes "no_digit pre" and "ends_number post"
  shows "tier_yield (Resolves (ResponseText (pre @ digits_of n @ post))) =
           within_bounds (to_double (of_nat n))"
  using extractBPMData_integer_text [OF assms] by (rule tier_yield_extract)

lemma tier_yield_decimal_text:
  assumes "no_digit pre" and "all_digits fp" and "ends_fraction post"
  shows "tier_yield (Resolves (ResponseText (pre @ digits_of n @ CHR ''.'' # fp @ post))) =
           within_bounds (to_double (of_nat n + fraction_value fp))"
  using extractBPMData_decimal_text [OF assms] by (rule tier_yield_extract)

lemma within_bounds_small_nat:
  "within_bounds (to_double (of_nat n)) = (if 0 < n \<and> n < 300 then Some (of_nat n) else None)"
  if "n < 2 ^ 53"
proof (cases "0 < n")
  case True
  from True that have "to_double (of_nat n) = Some (of_nat n)"
    by (rule to_double_of_nat)
  then show ?thesis
    using True by (simp add: within_bounds_def)
next
  case False
  then show ?thesis
    by (simp add: within_bounds_def to_double_def)
qed

lemma set_trim: "set (trim s) \<subseteq> set s"
proof -
  have "set (trim s) \<subseteq> set (dropWhile is_space s)"
    unfolding trim_def by (auto dest: set_dropWhileD)
  also have "\<dots> \<subseteq> set s"
    by (auto dest: set_dropWhileD)
  finally show ?thesis .
qed

lemma tier_yield_no_digit:
  assumes "no_digit reply"
  shows "tier_yield (Resolves (ResponseText reply)) = None"
proof -
  from assms have nd: "\<forall>c \<in> set reply. \<not> is_digit c"
    by (simp add: no_digit_def filter_empty_conv)
  have sub: "set (trim reply) \<subseteq> set reply"
    by (rule set_trim)
  from nd sub have "\<forall>c \<in> set (trim reply). \<not> is_digit c"
    by blast
  then have "dropWhile (\<lambda>c. \<not> is_digit c) (trim reply) = []"
    by simp
  then have "parsed_bpm (trim reply) = None"
    by (simp add: parsed_bpm_def decimalMatch_alt)
  then show ?thesis
    by (simp add: tier_yield_def extractBPMData_def Let_def)
qed

lemma tier_yield_fails [simp]: "tier_yield Rejects = None" "tier_yield (Resolves NoResponse) = None"
  by (simp_all add: tier_yield_def extractBPMData_def)

lemma tier_yield_rounds_to_300:
  "extractBPMData (ResponseText ''299.99999999999998'') = Inr (''299.99999999999998'', Some 300) \<and>
   tier_yield (Resolves (ResponseText ''299.99999999999998'')) = None"
  by code_simp

lemma tier_yield_decimal_example:
  "extractBPMData (ResponseText '' 120.5 BPM'') = Inr (''120.5 BPM'', Some (241 / 2)) \<and>
   tier_yield (Resolves (ResponseText '' 120.5 BPM'')) = Some (241 / 2)"
  by code_simp

lemma attempt_tier_yield:
  "\<not> aborted k \<Longrightarrow> \<not> aborted (Suc k) \<Longrightarrow> tier_bpm (attempt_tier T aborted k res) = tier_yield res"
  by (auto simp: attempt_tier_def tier_yield_def Let_def split: api_result.splits sum.splits option.splits prod.splits)

lemma attempt_tier_called:
  "\<not> aborted k \<Longrightarrow> tier_called (attempt_tier T aborted k res)"
  by (auto simp: attempt_tier_def Let_def split: api_result.splits sum.splits option.splits prod.splits)

lemma attempt_tier_bpm_yield:
  "tier_bpm (attempt_tier T aborted k res) = Some b \<Longrightarrow> tier_yield res = Some b"
  by (auto simp: attempt_tier_def tier_yield_def Let_def split: api_result.splits sum.splits option.splits prod.splits if_splits)


lemma attempt_tier_None:
  "tier_yield res = None \<Longrightarrow> tier_bpm (attempt_tier T aborted k res) = None"
  using attempt_tier_bpm_yield [of T aborted k res] by (cases "tier_bpm (attempt_tier T aborted k res)") auto


text \<open>
  Claim C4, as the code has it. With an API key, and as long as the token is not cancelled
  when the checks around a tier's call are made: the first tier whose call yields a
  parseable value strictly within \<open>(0, 300)\<close> determines the result, which is returned at
  once, no later tier being called; a tier that fails (its call rejects, the result has no
  response, the text holds no number, or the number is out of bounds) is followed by a call
  of the next tier; when all three fail the result is \<^verbatim>\<open>null\<close> after three calls. What a
  call yields is read off its text: a text whose first number is the decimal notation of
  \<open>n\<close> yields \<open>n\<close> exactly when \<open>0 < n < 300\<close>; with a fraction part it yields the double
  nearest to the decimal, when that lies within the bounds (so "299.99999999999998", which
  is 300 as a double, yields nothing); a text without a digit yields nothing.
\<close>

theorem oracle_tier_fallback:
  assumes key: "geminiApiKey \<noteq> []"
  shows
    "(\<not> aborted 0 \<and> \<not> aborted 1 \<and> tier_yield (api PRIMARY) = Some b \<longrightarrow>
        outcome (getTrackBPMWithGemini geminiApiKey aborted api) = Inr (Some b) \<and>
        calls (getTrackBPMWithGemini geminiApiKey aborted api) = [PRIMARY]) \<and>
     (\<not> aborted 0 \<and> \<not> aborted 1 \<and> \<not> aborted 2 \<and>
      tier_yield (api PRIMARY) = None \<and> tier_yield (api SECONDARY) = Some b \<longrightarrow>
        outcome (getTrackBPMWithGemini geminiApiKey aborted api) = Inr (Some b) \<and>
        calls (getTrackBPMWithGemini geminiApiKey aborted api) = [PRIMARY, SECONDARY]) \<and>
     (\<not> aborted 0 \<and> \<not> aborted 1 \<and> \<not> aborted 2 \<and> \<not> aborted 3 \<and>
      tier_yield (api PRIMARY) = None \<and> tier_yield (api SECONDARY) = None \<and>
      tier_yield (api TERTIARY) = Some b \<longrightarrow>
        outcome (getTrackBPMWithGemini geminiApiKey aborted api) = Inr (Some b) \<and>
        calls (getTrackBPMWithGemini geminiApiKey aborted api) = [PRIMARY, SECONDARY, TERTIARY]) \<and>
     (\<not> aborted 0 \<and> \<not> aborted 1 \<and> \<not> aborted 2 \<and>
      tier_yield (api PRIMARY) = None \<and> tier_yield (api SECONDARY) = None \<and>
      tier_yield (api TERTIARY) = None \<longrightarrow>
        outcome (getTrackBPMWithGemini geminiApiKey aborted api) = Inr None \<and>
        calls (getTrackBPMWithGemini geminiApiKey aborted api) = [PRIMARY, SECONDARY, TERTIARY]) \<and>
     (no_digit pre \<and> ends_number post \<and> n < 2 ^ 53 \<longrightarrow>
        tier_yield (Resolves (ResponseText (pre @ digits_of n @ post))) =
          (if 0 < n \<and> n < 300 then Some (of_nat n) else None)) \<and>
     (no_digit pre \<and> all_digits fp \<and> ends_fraction post \<longrightarrow>
        tier_yield (Resolves (ResponseText (pre @ digits_of n @ CHR ''.'' # fp @ post))) =
          within_bounds (to_double (of_nat n + fraction_value fp))) \<and>
     (no_digit reply \<longrightarrow> tier_yield (Resolves (ResponseText reply)) = None) \<and>
     tier_yield (Resolves NoResponse) = None \<and>
     tier_yield Rejects = None \<and>
     tier_yield (Resolves (ResponseText ''299.99999999999998'')) = None"
proof (intro conjI impI)
  assume a: "\<not> aborted 0 \<and> \<not> aborted 1 \<and> tier_yield (api PRIMARY) = Some b"
  then have 1: "tier_bpm (attempt_tier PRIMARY aborted 0 (api PRIMARY)) = Some b"
    and c1: "tier_called (attempt_tier PRIMARY aborted 0 (api PRIMARY))"
    by (simp_all add: attempt_tier_yield attempt_tier_called)
  from a key have s: "\<not> aborted 0" "geminiApiKey \<noteq> []" by simp_all
  show "outcome (getTrackBPMWithGemini geminiApiKey aborted api) = Inr (Some b)"
    using s by (simp add: getTrackBPMWithGemini_def Let_def 1 c1)
  show "calls (getTrackBPMWithGemini geminiApiKey aborted api) = [PRIMARY]"
    using s by (simp add: getTrackBPMWithGemini_def Let_def 1 c1)
next
  assume a: "\<not> aborted 0 \<and> \<not> aborted 1 \<and> \<not> aborted 2 \<and>
      tier_yield (api PRIMARY) = None \<and> tier_yield (api SECONDARY) = Some b"
  then have 1: "tier_bpm (attempt_tier PRIMARY aborted 0 (api PRIMARY)) = None"
    and c1: "tier_called (attempt_tier PRIMARY aborted 0 (api PRIMARY))"
    and 2: "tier_bpm (attempt_tier SECONDARY aborted (Suc 0) (api SECONDARY)) = Some b"
    and c2: "tier_called (attempt_tier SECONDARY aborted (Suc 0) (api SECONDARY))"
    by (simp_all add: attempt_tier_yield attempt_tier_called attempt_tier_None numeral_2_eq_2)
  from a key have s: "\<not> aborted 0" "geminiApiKey \<noteq> []" by simp_all
  show "outcome (getTrackBPMWithGemini geminiApiKey aborted api) = Inr (Some b)"
    using s by (simp add: getTrackBPMWithGemini_def Let_def 1 c1 2 c2)
  show "calls (getTrackBPMWithGemini geminiApiKey aborted api) = [PRIMARY, SECONDARY]"
    using s by (simp add: getTrackBPMWithGemini_def Let_def 1 c1 2 c2)
next
  assume a: "\<not> aborted 0 \<and> \<not> aborted 1 \<and> \<not> aborted 2 \<and> \<not> aborted 3 \<and>
      tier_yield (api PRIMARY) = None \<and> tier_yield (api SECONDARY) = None \<and>
      tier_yield (api TERTIARY) = Some b"
  then have 1: "tier_bpm (attempt_tier PRIMARY aborted 0 (api PRIMARY)) = None"
    and c1: "tier_called (attempt_tier PRIMARY aborted 0 (api PRIMARY))"
    and 2: "tier_bpm (attempt_tier SECONDARY aborted (Suc 0) (api SECONDARY)) = None"
    and c2: "tier_called (attempt_tier SECONDARY aborted (Suc 0) (api SECONDARY))"
    and 3: "tier_bpm (attempt_tier TERTIARY aborted (Suc (Suc 0)) (api TERTIARY)) = Some b"
    and c3: "tier_called (attempt_tier TERTIARY aborted (Suc (Suc 0)) (api TERTIARY))"
    by (simp_all add: attempt_tier_yield attempt_tier_called attempt_tier_None numeral_2_eq_2
          numeral_3_eq_3)
  from a key have s: "\<not> aborted 0" "geminiApiKey \<noteq> []" by simp_all
  show "outcome (getTrackBPMWithGemini geminiApiKey aborted api) = Inr (Some b)"
    using s by (simp add: getTrackBPMWithGemini_def Let_def 1 c1 2 c2 3 c3)
  show "calls (getTrackBPMWithGemini geminiApiKey aborted api) = [PRIMARY, SECONDARY, TERTIARY]"
    using s by (simp add: getTrackBPMWithGemini_def Let_def 1 c1 2 c2 3 c3)
next
  assume a: "\<not> aborted 0 \<and> \<not> aborted 1 \<and> \<not> aborted 2 \<and>
      tier_yield (api PRIMARY) = None \<and> tier_yield (api SECONDARY) = None \<and>
      tier_yield (api TERTIARY) = None"
  then have 1: "tier_bpm (attempt_tier PRIMARY aborted 0 (api PRIMARY)) = None"
    and c1: "tier_called (attempt_tier PRIMARY aborted 0 (api PRIMARY))"
    and 2: "tier_bpm (attempt_tier SECONDARY aborted (Suc 0) (api SECONDARY)) = None"
    and c2: "tier_called (attempt_tier SECONDARY aborted (Suc 0) (api SECONDARY))"
    and 3: "tier_bpm (attempt_tier TERTIARY aborted (Suc (Suc 0)) (api TERTIARY)) = None"
    and c3: "tier_called (attempt_tier TERTIARY aborted (Suc (Suc 0)) (api TERTIARY))"
    by (simp_all add: attempt_tier_called attempt_tier_None numeral_2_eq_2)
  from a key have s: "\<not> aborted 0" "geminiApiKey \<noteq> []" by simp_all
  show "outcome (getTrackBPMWithGemini geminiApiKey aborted api) = Inr None"
    using s by (simp add: getTrackBPMWithGemini_def Let_def 1 c1 2 c2 3 c3)
  show "calls (getTrackBPMWithGemini geminiApiKey aborted api) = [PRIMARY, SECONDARY, TERTIARY]"
    using s by (simp add: getTrackBPMWithGemini_def Let_def 1 c1 2 c2 3 c3)
next
  assume "no_digit pre \<and> ends_number post \<and> n < 2 ^ 53"
  then show "tier_yield (Resolves (ResponseText (pre @ digits_of n @ post))) =
          (if 0 < n \<and> n < 300 then Some (of_nat n) else None)"
    by (simp only: tier_yield_integer_text within_bounds_small_nat)
next
  assume "no_digit pre \<and> all_digits fp \<and> ends_fraction post"
  then show "tier_yield (Resolves (ResponseText (pre @ digits_of n @ CHR ''.'' # fp @ post))) =
          within_bounds (to_double (of_nat n + fraction_value fp))"
    by (simp only: tier_yield_decimal_text)
next
  assume "no_digit reply"
  then show "tier_yield (Resolves (ResponseText reply)) = None"
    by (rule tier_yield_no_digit)
next
  show "tier_yield (Resolves NoResponse) = None" by simp
  show "tier_yield Rejects = None" by simp
  show "tier_yield (Resolves (ResponseText ''299.99999999999998'')) = None"
    using tier_yield_rounds_to_300 by (rule conjunct2)
qed

text \<open>
  Scenario B: tier 1 answers "unknown", tier 2 answers "128 BPM"; the result is 128 and
  tier 3 is not called.
\<close>

theorem oracle_scenario_B:
  "outcome (getTrackBPMWithGemini ''key'' (\<lambda>k. False) scenario_B_api) = Inr (Some 128) \<and>
   calls (getTrackBPMWithGemini ''key'' (\<lambda>k. False) scenario_B_api) = [PRIMARY, SECONDARY]"
proof -
  have key: "''key'' \<noteq> []" by simp
  note th = oracle_tier_fallback
    [OF key, where aborted = "\<lambda>k. False" and api = scenario_B_api and b = 128
       and pre = "[]" and n = 128 and post = "'' BPM''" and reply = "''unknown''"]
  have d: "digits_of 128 = ''128''"
    by code_simp
  have "no_digit ''unknown''"
    by (simp add: no_digit_def is_digit_def)
  with th have "tier_yield (Resolves (ResponseText ''unknown'')) = None"
    by blast
  then have y1: "tier_yield (scenario_B_api PRIMARY) = None"
    by (simp add: scenario_B_api_def)
  have "no_digit [] \<and> ends_number '' BPM'' \<and> (128::nat) < 2 ^ 53"
    by (simp add: no_digit_def ends_number_def is_digit_def)
  with th have "tier_yield (Resolves (ResponseText ([] @ digits_of 128 @ '' BPM''))) =
      (if 0 < (128::nat) \<and> (128::nat) < 300 then Some (of_nat 128) else None)"
    by blast
  then have y2: "tier_yield (scenario_B_api SECONDARY) = Some 128"
    by (simp add: scenario_B_api_def d)
  have "\<not> (\<lambda>k::nat. False) 0 \<and> \<not> (\<lambda>k::nat. False) 1 \<and> \<not> (\<lambda>k::nat. False) 2"
    by simp
  with th y1 y2 show ?thesis
    by blast
qed

text \<open>
  Claim C4 as stated, for every execution, fails: when the token is cancelled while the
  first tier's call is in flight, the call yields "128", a value within the bounds, and the
  function does not return it.
\<close>

theorem valid_tier_value_lost_on_cancel:
  "tier_yield (Resolves (ResponseText ''128'')) = Some 128 \<and>
   outcome (getTrackBPMWithGemini ''key'' (\<lambda>k. 1 \<le> k) (\<lambda>T. Resolves (ResponseText ''128''))) =
     Inr None \<and>
   calls (getTrackBPMWithGemini ''key'' (\<lambda>k. 1 \<le> k) (\<lambda>T. Resolves (ResponseText ''128''))) =
     [PRIMARY]"
proof (intro conjI)
  show "tier_yield (Resolves (ResponseText ''128'')) = Some 128"
    by code_simp
  show "outcome (getTrackBPMWithGemini ''key'' (\<lambda>k. 1 \<le> k) (\<lambda>T. Resolves (ResponseText ''128''))) =
     Inr None"
    by (simp add: getTrackBPMWithGemini_def Let_def attempt_tier_def)
  show "calls (getTrackBPMWithGemini ''key'' (\<lambda>k. 1 \<le> k) (\<lambda>T. Resolves (ResponseText ''128''))) =
     [PRIMARY]"
    by (simp add: getTrackBPMWithGemini_def Let_def attempt_tier_def)
qed




text \<open>
  Claim C6 fails in the code. The token is cancelled while the first tier's call is in
  flight, and every tier would answer "128". The cancellation error thrown after the call
  is caught by the tier's own \<^verbatim>\<open>catch\<close>, as are the ones thrown at the start of tiers 2
  and 3: no further call is made, but the function returns \<^verbatim>\<open>null\<close>, and
  \<^verbatim>\<open>processTrack\<close> reports the same result as for a call whose three tiers failed. Only a
  token cancelled before the start is reported as cancelled.
\<close>

theorem cancel_inside_tier_indistinguishable:
  "outcome (getTrackBPMWithGemini ''key'' (\<lambda>k. 1 \<le> k) (\<lambda>T. Resolves (ResponseText ''128''))) = Inr None \<and>
   calls (getTrackBPMWithGemini ''key'' (\<lambda>k. 1 \<le> k) (\<lambda>T. Resolves (ResponseText ''128''))) = [PRIMARY] \<and>
   processTrack (getTrackBPMWithGemini ''key'' (\<lambda>k. 1 \<le> k) (\<lambda>T. Resolves (ResponseText ''128''))) =
     \<lparr>result_bpm = None, cancelled = False\<rparr> \<and>
   processTrack (getTrackBPMWithGemini ''key'' (\<lambda>k. False) (\<lambda>T. Rejects)) =
     \<lparr>result_bpm = None, cancelled = False\<rparr> \<and>
   processTrack (getTrackBPMWithGemini ''key'' (\<lambda>k. True) (\<lambda>T. Resolves (ResponseText ''128''))) =
     \<lparr>result_bpm = None, cancelled = True\<rparr>"
  by (simp add: getTrackBPMWithGemini_def Let_def attempt_tier_def processTrack_def)

section \<open>Scheduler\<close>

lemma start_batch_inv: "batch_inv s \<Longrightarrow> batch_inv (start_batch n s)"
proof (induction n s rule: start_batch.induct)
  case (1 n s)
  show ?case
  proof (cases "currentIndex s < n \<and> length (activePromises s) < maxConcurrent \<and> \<not> aborted_flag s")
    case True
    let ?s' = "s\<lparr>activePromises := activePromises s @ [(currentIndex s, True)],
                   currentIndex := Suc (currentIndex s)\<rparr>"
    have "batch_inv ?s'"
      using "1.prems" True by (simp add: batch_inv_def)
    then have "batch_inv (start_batch n ?s')"
      using True by (intro "1.IH") simp_all
    then show ?thesis
      using True by (subst start_batch.simps) simp
  next
    case False
    then have "start_batch n s = s"
      by (subst start_batch.simps) auto
    then show ?thesis
      using "1.prems" by simp
  qed
qed

lemma batch_inv_sched_inv: "batch_inv s \<Longrightarrow> sched_inv s"
proof -
  assume b: "batch_inv s"
  then have len: "length (activePromises s) = currentIndex s"
    by (metis batch_inv_def length_map length_upt minus_nat.diff_0)
  from b have "fst ` set (activePromises s) = set [0..<currentIndex s]"
    by (metis batch_inv_def set_map)
  moreover from b have "length (filter snd (activePromises s)) = currentIndex s"
    using len by (simp add: batch_inv_def)
  moreover from b have "length (activePromises s) \<le> maxConcurrent"
    by (simp add: batch_inv_def)
  ultimately show ?thesis
    using len by (simp add: sched_inv_def)
qed

lemma fetch_start_inv: "sched_inv (fetch_start n ab)"
proof -
  let ?s0 = "\<lparr>currentIndex = 0, activePromises = [], settled = [], completed = 0,
                tempos_found = [], aborted_flag = ab, returned = False\<rparr>"
  have b: "batch_inv ?s0" by (simp add: batch_inv_def)
  then have "sched_inv (start_batch n ?s0)"
    by (intro batch_inv_sched_inv start_batch_inv)
  moreover have "sched_inv (?s0\<lparr>returned := True\<rparr>)"
    by (simp add: sched_inv_def)
  ultimately show ?thesis
    by (simp add: fetch_start_def Let_def)
qed

lemma find_fst_Some: "find (\<lambda>p. fst p = i) xs = Some p \<Longrightarrow> p \<in> set xs \<and> fst p = i"
  by (induction xs) (auto split: if_splits)

lemma sched_step_inv:
  assumes "sched_inv s" and "sched_step n s e = Some s'"
  shows "sched_inv s'"
proof (cases e)
  case (Settle i bpm)
  with assms(2) have s': "s' = s\<lparr>settled := i # settled s, completed := Suc (completed s),
      tempos_found := (case bpm of None \<Rightarrow> tempos_found s | Some b \<Rightarrow> (i, b) # tempos_found s)\<rparr>"
    by (simp split: if_splits)
  from assms(1) show ?thesis
    unfolding s' sched_inv_def by auto
next
  case (Finally i)
  with assms(2) obtain p where p: "p \<in> set (activePromises s)" "fst p = i"
    and i: "i \<in> set (settled s)"
    and s': "s' = (let s1 = s\<lparr>activePromises := remove1 p (activePromises s)\<rparr>
             in if snd p \<and> currentIndex s1 < n \<and> \<not> aborted_flag s1 then
                  s1\<lparr>activePromises := activePromises s1 @ [(currentIndex s1, False)],
                           currentIndex := Suc (currentIndex s1)\<rparr>
                else s1)"
    by (auto simp: Let_def split: option.splits if_splits dest: find_fst_Some)
  define L where "L = length (activePromises s)"
  define F where "F = length (filter snd (activePromises s))"
  have len: "length (remove1 p (activePromises s)) = L - 1"
    using p(1) by (simp add: length_remove1 L_def)
  have pos: "0 < L"
    using p(1) unfolding L_def by (cases "activePromises s") auto
  have cover: "fst ` set (activePromises s) \<subseteq> insert i (fst ` set (remove1 p (activePromises s)))"
  proof
    fix j assume "j \<in> fst ` set (activePromises s)"
    then obtain q where q: "q \<in> set (activePromises s)" "fst q = j" by auto
    show "j \<in> insert i (fst ` set (remove1 p (activePromises s)))"
    proof (cases "q = p")
      case True
      with q p show ?thesis by simp
    next
      case False
      with q have "q \<in> set (remove1 p (activePromises s))" by simp
      with q show ?thesis by force
    qed
  qed
  have flen: "length (filter snd (remove1 p (activePromises s))) = F - (if snd p then 1 else 0)"
    using p(1) by (simp add: filter_remove1 length_remove1 F_def)
  have fpos: "snd p \<Longrightarrow> 0 < F"
    using p(1) unfolding F_def by (metis filter_empty_conv length_greater_0_conv)
  from assms(1) have a1: "L \<le> maxConcurrent"
    and a2: "\<forall>j < currentIndex s. j \<in> fst ` set (activePromises s) \<or> j \<in> set (settled s)"
    and a3: "currentIndex s + F \<le> 2 * maxConcurrent"
    by (simp_all add: sched_inv_def L_def F_def)
  have a2': "\<forall>j < currentIndex s. j \<in> fst ` set (remove1 p (activePromises s)) \<or> j \<in> set (settled s)"
  proof (intro allI impI)
    fix j assume "j < currentIndex s"
    with a2 have "j \<in> fst ` set (activePromises s) \<or> j \<in> set (settled s)" by blast
    with cover i show "j \<in> fst ` set (remove1 p (activePromises s)) \<or> j \<in> set (settled s)"
      by blast
  qed
  show ?thesis
  proof (cases "snd p \<and> currentIndex s < n \<and> \<not> aborted_flag s")
    case True
    then have s'': "s' = s\<lparr>activePromises := remove1 p (activePromises s) @ [(currentIndex s, False)],
        currentIndex := Suc (currentIndex s)\<rparr>"
      using s' by (simp add: Let_def)
    have c1: "length (activePromises s') \<le> maxConcurrent"
      unfolding s'' using len pos a1 by simp
    have c2: "\<forall>j < currentIndex s'. j \<in> fst ` set (activePromises s') \<or> j \<in> set (settled s')"
    proof (intro allI impI)
      fix j assume "j < currentIndex s'"
      then have "j < currentIndex s \<or> j = currentIndex s"
        unfolding s'' by (simp add: less_Suc_eq)
      then show "j \<in> fst ` set (activePromises s') \<or> j \<in> set (settled s')"
      proof
        assume "j < currentIndex s"
        with a2' have "j \<in> fst ` set (remove1 p (activePromises s)) \<or> j \<in> set (settled s)"
          by blast
        then show ?thesis unfolding s'' by auto
      next
        assume "j = currentIndex s"
        then show ?thesis unfolding s'' by force
      qed
    qed
    have "0 < F" using True fpos by simp
    moreover have "length (filter snd (remove1 p (activePromises s))) = F - 1"
      using True flen by simp
    ultimately have c3: "currentIndex s' + length (filter snd (activePromises s')) \<le> 2 * maxConcurrent"
      unfolding s'' using a3 by simp
    show ?thesis
      unfolding sched_inv_def using c1 c2 c3 by blast
  next
    case False
    then have s'': "s' = s\<lparr>activePromises := remove1 p (activePromises s)\<rparr>"
      using s' by (simp add: Let_def)
    have c1: "length (activePromises s') \<le> maxConcurrent"
      unfolding s'' using len a1 by simp
    have c2: "\<forall>j < currentIndex s'. j \<in> fst ` set (activePromises s') \<or> j \<in> set (settled s')"
      unfolding s'' using a2' by simp
    have "length (filter snd (remove1 p (activePromises s))) \<le> F"
      using flen by simp
    then have c3: "currentIndex s' + length (filter snd (activePromises s')) \<le> 2 * maxConcurrent"
      unfolding s'' using a3 by simp
    show ?thesis
      unfolding sched_inv_def using c1 c2 c3 by blast
  qed
next
  case Abort
  with assms(2) have "s' = s\<lparr>aborted_flag := True\<rparr>" by simp
  with assms(1) show ?thesis by (simp add: sched_inv_def)
next
  case Return
  with assms(2) have "s' = s\<lparr>returned := True\<rparr>" by (simp split: if_splits)
  with assms(1) show ?thesis by (simp add: sched_inv_def)
qed

lemma reachable_inv: "reachable n ab s \<Longrightarrow> sched_inv s"
  by (induction rule: reachable.induct) (auto intro: fetch_start_inv sched_step_inv)

lemma unsettled_le_active:
  assumes "sched_inv s"
  shows "length (unsettled s) \<le> length (activePromises s)"
proof -
  have d: "distinct (unsettled s)"
    by (simp add: unsettled_def)
  have "set (unsettled s) \<subseteq> fst ` set (activePromises s)"
    using assms by (auto simp: unsettled_def sched_inv_def)
  then have "card (set (unsettled s)) \<le> card (fst ` set (activePromises s))"
    by (intro card_mono) simp_all
  also have "\<dots> \<le> card (set (activePromises s))"
    by (rule card_image_le) simp
  also have "\<dots> \<le> length (activePromises s)"
    by (rule card_length)
  finally show ?thesis
    using d by (simp add: distinct_card)
qed

lemma run_events_reachable:
  "reachable n ab s \<Longrightarrow> run_events n s es = Some s' \<Longrightarrow> reachable n ab s'"
proof (induction es arbitrary: s)
  case Nil
  then show ?case by simp
next
  case (Cons e es)
  from Cons.prems(2) obtain s1 where s1: "sched_step n s e = Some s1"
    and rest: "run_events n s1 es = Some s'"
    by (auto split: option.splits)
  from Cons.prems(1) s1 have "reachable n ab s1"
    by (rule reachable.step)
  then show ?case
    using rest by (rule Cons.IH)
qed

text \<open>
  Claim C3. In every state an execution can reach, for any number of tracks, the
  operations that are started and not settled number at most \<^verbatim>\<open>maxConcurrent\<close> = 30,
  and so do the promises in \<^verbatim>\<open>activePromises\<close>.
\<close>

theorem concurrency_bound:
  assumes "reachable n ab s"
  shows "length (unsettled s) \<le> maxConcurrent \<and> length (activePromises s) \<le> maxConcurrent"
proof -
  from assms have inv: "sched_inv s" by (rule reachable_inv)
  then have "length (unsettled s) \<le> length (activePromises s)" by (rule unsettled_le_active)
  moreover from inv have "length (activePromises s) \<le> maxConcurrent" by (simp add: sched_inv_def)
  ultimately show ?thesis by simp
qed

text \<open>
  With 61 tracks, after the first ten operations have settled and their handlers have
  started ten more, 40 tracks are started and exactly 30 operations are unsettled.
\<close>

theorem concurrency_bound_witness:
  "\<exists>s. run_events 61 (fetch_start 61 False) (take 20 (in_order_run 60)) = Some s \<and>
       currentIndex s = 40 \<and> length (unsettled s) = 30 \<and>
       length (unsettled s) \<le> maxConcurrent \<and> length (activePromises s) \<le> maxConcurrent"
proof -
  have "map_option (\<lambda>s. (currentIndex s, length (unsettled s)))
          (run_events 61 (fetch_start 61 False) (take 20 (in_order_run 60))) = Some (40, 30)"
    by code_simp
  then obtain s where s: "run_events 61 (fetch_start 61 False) (take 20 (in_order_run 60)) = Some s"
    and c: "currentIndex s = 40" and u: "length (unsettled s) = 30"
    by auto
  have "reachable 61 False (fetch_start 61 False)"
    by (rule reachable.start)
  then have r: "reachable 61 False s"
    using s by (rule run_events_reachable)
  from concurrency_bound [OF r] s c u show ?thesis
    by blast
qed

text \<open>
  The handler of a promise started by a handler does not start a track, so at most
  \<open>2 * maxConcurrent\<close> = 60 tracks are ever started.
\<close>

lemma started_bound: "reachable n ab s \<Longrightarrow> currentIndex s \<le> 2 * maxConcurrent"
  using reachable_inv [of n ab s] by (simp add: sched_inv_def)

text \<open>
  Claim C2 fails in the code. With 61 tracks and no cancellation, let every operation
  settle and its handler run in the order of starting. The 30 initial promises each start
  one more track; the 30 promises started that way start none. When the 31st operation
  settles the active set drops to 29 although a track is waiting, and when all 60 have
  settled the function returns with the 61st track never started.
\<close>

theorem rolling_window_stops_refilling:
  "map_option (\<lambda>s. (currentIndex s, length (activePromises s), returned s))
     (run_events 61 (fetch_start 61 False) (take 62 (in_order_run 60))) =
     Some (60, 29, False) \<and>
   map_option (\<lambda>s. (currentIndex s, activePromises s, returned s, length (settled s)))
     (run_events 61 (fetch_start 61 False) (in_order_run 60)) =
     Some (60, [], True, 60)"
  by code_simp

section \<open>Catalog client\<close>

lemma spGet_401s:
  "spGet (replicate k Http401 @ rs) (replicate k True @ rf) =
     ((after_fetch \<circ> after_refresh) ^^ k) (spGet rs rf)"
  by (induction k) simp_all

lemma bump_iter:
  "((after_fetch \<circ> after_refresh) ^^ k) r =
     r\<lparr>fetch_calls := k + fetch_calls r, refresh_calls := k + refresh_calls r\<rparr>"
  by (induction k) (simp_all add: after_fetch_def after_refresh_def)

lemma spPost_401s:
  "spPost (replicate k Http401 @ rs) (replicate k True @ rf) =
     ((after_fetch \<circ> after_refresh) ^^ k) (spPost rs rf)"
  by (induction k) simp_all

text \<open>
  Claim C7, as the code has it. On every 401 answer \<^verbatim>\<open>spGet\<close> and \<^verbatim>\<open>spPost\<close> refresh
  the credentials once and send the request again: a request answered by \<open>k\<close> 401s in a
  row, each refresh succeeding, is sent \<open>k + 1\<close> times after \<open>k\<close> refreshes, for every \<open>k\<close>.
  When a refresh fails its error reaches the caller and nothing more is sent.
\<close>

theorem refresh_on_every_401:
  "spGet (replicate k Http401 @ HttpOk body # rs) (replicate k True @ rf) =
     \<lparr>sp_outcome = Some (Inr body), fetch_calls = Suc k, refresh_calls = k, slept_ms = 0\<rparr> \<and>
   spGet (Http401 # rs) (False # rf) =
     \<lparr>sp_outcome = Some (Inl RefreshFailed), fetch_calls = 1, refresh_calls = 1, slept_ms = 0\<rparr> \<and>
   spPost (replicate k Http401 @ HttpOk body # rs) (replicate k True @ rf) =
     \<lparr>sp_outcome = Some (Inr body), fetch_calls = Suc k, refresh_calls = k, slept_ms = 0\<rparr> \<and>
   spPost (Http401 # rs) (False # rf) =
     \<lparr>sp_outcome = Some (Inl RefreshFailed), fetch_calls = 1, refresh_calls = 1, slept_ms = 0\<rparr>"
  by (simp add: spGet_401s spPost_401s bump_iter after_fetch_def after_refresh_def finished_def)

text \<open>
  Claim C7 as stated fails: a second 401 for the same request leads to a second refresh
  and a third transmission.
\<close>

theorem second_401_refreshes_again:
  "spGet [Http401, Http401, HttpOk ''{}''] [True, True] =
     \<lparr>sp_outcome = Some (Inr ''{}''), fetch_calls = 3, refresh_calls = 2, slept_ms = 0\<rparr> \<and>
   spPost [Http401, Http401, HttpOk ''{}''] [True, True] =
     \<lparr>sp_outcome = Some (Inr ''{}''), fetch_calls = 3, refresh_calls = 2, slept_ms = 0\<rparr>"
  by (simp add: after_fetch_def after_refresh_def finished_def)

section \<open>Pagination\<close>

lemma getAllSavedTracks_loop_all:
  "offset \<le> length saved \<Longrightarrow>
   fst (getAllSavedTracks_loop usable saved items offset rc) = items @ filter usable (drop offset saved)"
proof (induction usable saved items offset rc rule: getAllSavedTracks_loop.induct)
  case (1 usable saved items offset rc)
  show ?case
  proof (cases "length (page_items saved 10 offset) = 10")
    case True
    then have le: "offset + 10 \<le> length saved"
      by (auto simp: page_items_def)
    have "fst (getAllSavedTracks_loop usable saved (items @ filter usable (page_items saved 10 offset)) (offset + 10) (Suc rc)) =
       (items @ filter usable (page_items saved 10 offset)) @ filter usable (drop (offset + 10) saved)"
      using True le by (intro "1.IH") simp_all
    moreover have "page_items saved 10 offset @ drop (offset + 10) saved = drop offset saved"
      by (metis page_items_def add.commute append_take_drop_id drop_drop)
    then have "filter usable (page_items saved 10 offset) @ filter usable (drop (offset + 10) saved) =
       filter usable (drop offset saved)"
      by (metis filter_append)
    ultimately show ?thesis
      using True by (subst getAllSavedTracks_loop.simps) (simp add: Let_def)
  next
    case False
    then have "page_items saved 10 offset = drop offset saved"
      using "1.prems" by (auto simp: page_items_def)
    with False show ?thesis
      by (subst getAllSavedTracks_loop.simps) (simp add: Let_def)
  qed
qed

lemma getAllSavedTracks_all: "fst (getAllSavedTracks usable saved) = filter usable saved"
  by (simp add: getAllSavedTracks_def getAllSavedTracks_loop_all)

text \<open>
  Claim C8 fails in \<^verbatim>\<open>loadPlaylists\<close> of \<^verbatim>\<open>part_002\<close>, which requests pages of 50 and
  compares the page length with 20. With 60 playlists the first page is full (50 items) and
  the loop stops after one request, leaving 10 playlists unread; with 20 playlists the
  page is short (20 of 50) and the loop asks for another page. The earlier version of the
  function (compare with 50) reads all 60 playlists in two requests, and
  \<^verbatim>\<open>getAllSavedTracks\<close> (pages of 10, compare with 10) stops at the short third page.
\<close>

theorem loadPlaylists_wrong_page_size:
  "loadPlaylists [0..<60::nat] 100 = ([0..<50], 1) \<and>
   loadPlaylists [0..<20::nat] 100 = ([0..<20], 2) \<and>
   loadPlaylists_v1 [0..<60::nat] = ([0..<60], 2) \<and>
   getAllSavedTracks (\<lambda>t. True) [0..<25::nat] = ([0..<25], 3)"
  by code_simp

end
